theory Spec2Isabelle
  imports Complex_Main "HOL-Library.AList" "HOL-Library.Multiset"
begin

section \<open>Python values\<close>

text \<open>
  The exceptions the modelled code can raise. A function that can raise returns
  \<open>error + 'a\<close>, with \<open>Inl\<close> for the exception.
\<close>

datatype error =
  ValueError | IndexError | KeyError | TypeError | ZeroDivisionError | AttributeError
  | StopIteration | OverflowError

text \<open>
  A Python float: a finite value, one of the two infinities, or NaN. A finite value is the
  real number the double stands for; the comparisons are Python's, where every comparison
  with NaN is false.
\<close>

datatype pyfloat = NaN | NInf | Fin real | PInf

fun fl_lt :: "pyfloat \<Rightarrow> pyfloat \<Rightarrow> bool" where
  "fl_lt NaN b = False"
| "fl_lt a NaN = False"
| "fl_lt NInf NInf = False"
| "fl_lt NInf b = True"
| "fl_lt (Fin x) (Fin y) = (x < y)"
| "fl_lt (Fin x) PInf = True"
| "fl_lt (Fin x) NInf = False"
| "fl_lt PInf b = False"

definition fl_eq :: "pyfloat \<Rightarrow> pyfloat \<Rightarrow> bool" where
  "fl_eq a b = (a \<noteq> NaN \<and> b \<noteq> NaN \<and> a = b)"

fun fl_neg :: "pyfloat \<Rightarrow> pyfloat" where
  "fl_neg NaN = NaN"
| "fl_neg NInf = PInf"
| "fl_neg (Fin x) = Fin (- x)"
| "fl_neg PInf = NInf"

fun isinf :: "pyfloat \<Rightarrow> bool" where
  "isinf NInf = True"
| "isinf PInf = True"
| "isinf a = False"

text \<open>
  Arithmetic in double precision. An operation on doubles returns the double nearest to
  the exact result, ties going to the even significand. A double has 53 significant bits:
  the doubles around \<open>x\<close> are the multiples of \<open>quantum x\<close>, which is
  \<open>2 ^ (e - 52)\<close> for \<open>2 ^ e \<le> |x| < 2 ^ (e + 1)\<close>, and \<open>2 ^ -1074\<close> below the
  normal range. A result of magnitude \<open>2 ^ 1024\<close> or more is an infinity.
\<close>

definition round_half_even :: "real \<Rightarrow> int" where
  "round_half_even m =
     (let f = \<lfloor>m\<rfloor> in
      if m - of_int f < 1 / 2 then f
      else if 1 / 2 < m - of_int f then f + 1
      else if even f then f else f + 1)"

definition quantum :: "real \<Rightarrow> real" where
  "quantum x = 2 powr of_int (max \<lfloor>log 2 \<bar>x\<bar>\<rfloor> (- 1022) - 52)"

definition round_to_double :: "real \<Rightarrow> pyfloat" where
  "round_to_double x =
     (if x = 0 then Fin 0
      else
        (let y = quantum x * of_int (round_half_even (x / quantum x))
         in if 2 ^ 1024 \<le> \<bar>y\<bar> then (if 0 < x then PInf else NInf) else Fin y))"

text \<open>
  \<open>float(n)\<close> of a Python int, as the mixed operations below apply it: the nearest
  double, OverflowError when there is none.
\<close>

definition float_of_int :: "int \<Rightarrow> error + real" where
  "float_of_int n =
     (case round_to_double (of_int n) of Fin r \<Rightarrow> Inr r | other \<Rightarrow> Inl OverflowError)"

text \<open>\<open>n * x\<close> for an int \<open>n\<close> and a finite float \<open>x\<close>.\<close>

definition mul_int_float :: "int \<Rightarrow> real \<Rightarrow> error + pyfloat" where
  "mul_int_float n x =
     (case float_of_int n of
        Inl e \<Rightarrow> Inl e
      | Inr r \<Rightarrow> Inr (round_to_double (r * x)))"

text \<open>
  \<open>p / q\<close> for two ints: the double nearest to the exact quotient, ZeroDivisionError for
  \<open>q = 0\<close>, OverflowError when the quotient is too large for a float.
\<close>

definition int_truediv :: "int \<Rightarrow> int \<Rightarrow> error + real" where
  "int_truediv p q =
     (if q = 0 then Inl ZeroDivisionError
      else (case round_to_double (of_int p / of_int q) of
              Fin r \<Rightarrow> Inr r
            | other \<Rightarrow> Inl OverflowError))"

text \<open>
  \<open>int(x)\<close> truncates a float towards zero and \<open>math.ceil(x)\<close> rounds it up; both
  raise OverflowError for an infinity and ValueError for NaN.
\<close>

definition py_int :: "real \<Rightarrow> int" where
  "py_int r = (if 0 \<le> r then \<lfloor>r\<rfloor> else \<lceil>r\<rceil>)"

definition int_of_float :: "pyfloat \<Rightarrow> error + int" where
  "int_of_float x =
     (case x of Fin r \<Rightarrow> Inr (py_int r) | NaN \<Rightarrow> Inl ValueError | other \<Rightarrow> Inl OverflowError)"


text \<open>
  A heap entry is the tuple \<open>(utility, item)\<close>. Python compares tuples at the first
  position where they differ, so items are compared when the utilities are equal; the
  items are therefore of an ordered type (strings, in the program's use).
\<close>

type_synonym 'x entry = "pyfloat \<times> 'x"

definition tuple_lt :: "('x::linorder) entry \<Rightarrow> 'x entry \<Rightarrow> bool" where
  "tuple_lt a b = (if fl_eq (fst a) (fst b) then snd a < snd b else fl_lt (fst a) (fst b))"

text \<open>Indexing a Python list: a negative index counts from the end.\<close>

definition py_index :: "'a list \<Rightarrow> int \<Rightarrow> error + 'a" where
  "py_index xs i =
     (if 0 \<le> i \<and> i < int (length xs) then Inr (xs ! nat i)
      else if i < 0 \<and> - int (length xs) \<le> i then Inr (xs ! nat (int (length xs) + i))
      else Inl IndexError)"

text \<open>
  A dict is an association list in insertion order (its keys are distinct);
  \<open>AList.update\<close> is the assignment \<open>d[k] = v\<close>.
\<close>

definition dict_contains :: "('k \<times> 'v) list \<Rightarrow> 'k \<Rightarrow> bool" where
  "dict_contains d k = (map_of d k \<noteq> None)"

section \<open>The standard library's heapq\<close>

text \<open>
  The binary heap of Python's \<open>heapq\<close> on a list, as CPython implements it:
  \<open>_siftdown\<close> moves the entry at \<open>pos\<close> up towards \<open>startpos\<close>,
  \<open>_siftup\<close> moves the smaller child up until a leaf is reached and then sifts the
  displaced entry down again.
\<close>

function siftdown_loop ::
  "('x::linorder) entry list \<Rightarrow> nat \<Rightarrow> nat \<Rightarrow> 'x entry \<Rightarrow> 'x entry list" where
  "siftdown_loop heap startpos pos newitem =
     (if pos > startpos then
        (let parentpos = (pos - 1) div 2;
             parent = heap ! parentpos
         in if tuple_lt newitem parent
            then siftdown_loop (heap[pos := parent]) startpos parentpos newitem
            else heap[pos := newitem])
      else heap[pos := newitem])"
  by pat_completeness auto
termination
  by (relation "measure (\<lambda>(heap, startpos, pos, newitem). pos)") auto

definition siftdown :: "('x::linorder) entry list \<Rightarrow> nat \<Rightarrow> nat \<Rightarrow> 'x entry list" where
  "siftdown heap startpos pos = siftdown_loop heap startpos pos (heap ! pos)"

function siftup_loop :: "('x::linorder) entry list \<Rightarrow> nat \<Rightarrow> 'x entry list \<times> nat" where
  "siftup_loop heap pos =
     (let endpos = length heap; childpos = 2 * pos + 1 in
      if childpos < endpos then
        (let rightpos = childpos + 1;
             child = (if rightpos < endpos \<and> \<not> tuple_lt (heap ! childpos) (heap ! rightpos)
                      then rightpos else childpos)
         in siftup_loop (heap[pos := heap ! child]) child)
      else (heap, pos))"
  by pat_completeness auto
termination
  by (relation "measure (\<lambda>(heap, pos). length heap - pos)") (auto simp: Let_def)

definition siftup :: "('x::linorder) entry list \<Rightarrow> nat \<Rightarrow> 'x entry list" where
  "siftup heap pos =
     (let newitem = heap ! pos;
          moved = siftup_loop heap pos
      in siftdown_loop (fst moved) pos (snd moved) newitem)"

definition heappush :: "('x::linorder) entry list \<Rightarrow> 'x entry \<Rightarrow> 'x entry list" where
  "heappush heap item = siftdown (heap @ [item]) 0 (length heap)"

text \<open>\<open>heappushpop\<close> returns the popped entry and the heap.\<close>

definition heappushpop ::
  "('x::linorder) entry list \<Rightarrow> 'x entry \<Rightarrow> 'x entry \<times> 'x entry list" where
  "heappushpop heap item =
     (if heap \<noteq> [] \<and> tuple_lt (heap ! 0) item
      then (heap ! 0, siftup (heap[0 := item]) 0)
      else (item, heap))"

text \<open>\<open>heappop\<close> of a non-empty heap (the callers test for emptiness first).\<close>

definition heappop :: "('x::linorder) entry list \<Rightarrow> 'x entry \<times> 'x entry list" where
  "heappop heap =
     (let lastelt = last heap; rest = butlast heap in
      if rest \<noteq> [] then (rest ! 0, siftup (rest[0 := lastelt]) 0)
      else (lastelt, rest))"

text \<open>
  The step both acquisition loops repeat: push while the heap is under its capacity,
  push and pop the minimum once it is full.
\<close>

definition push_bounded :: "('x::linorder) entry list \<Rightarrow> int \<Rightarrow> 'x entry \<Rightarrow> 'x entry list" where
  "push_bounded heap capacity item =
     (if int (length heap) < capacity then heappush heap item
      else snd (heappushpop heap item))"

section \<open>The Acquirer and its configuration\<close>


record acquirer =
  size_a :: int
  init_size :: int
  batch_sizes :: "int list"
  dim :: int
  cluster_type :: "string option"
  cluster_superset :: "int option"
  epsilon :: real
  temp_i :: "real option"
  temp_f :: "real option"




text \<open>
  \<open>self.cluster_superset = cluster_superset or 10*self.batch_sizes[0]\<close> when the
  cluster type is truthy (a non-empty string), \<open>None\<close> otherwise.
\<close>

definition init_cluster_superset ::
  "string option \<Rightarrow> int option \<Rightarrow> int list \<Rightarrow> error + int option" where
  "init_cluster_superset ctype csuper bss =
     (if ctype \<noteq> None \<and> ctype \<noteq> Some [] then
        (if csuper \<noteq> None \<and> csuper \<noteq> Some 0 then Inr csuper
         else (case py_index bss 0 of
                 Inl e \<Rightarrow> Inl e
               | Inr b \<Rightarrow> Inr (Some (10 * b))))
      else Inr None)"


text \<open>\<open>batch_size(t)\<close>: the \<open>except IndexError\<close> branch reads the last entry.\<close>

definition batch_size :: "acquirer \<Rightarrow> int \<Rightarrow> error + int" where
  "batch_size a t =
     (case py_index (batch_sizes a) t of
        Inr b \<Rightarrow> Inr b
      | Inl e \<Rightarrow> if e = IndexError then py_index (batch_sizes a) (- 1) else Inl e)"

section \<open>Initial acquisition\<close>

fun acquire_loop ::
  "('x \<times> pyfloat) list \<Rightarrow> int \<Rightarrow> ('x::linorder) entry list \<Rightarrow> 'x entry list" where
  "acquire_loop [] capacity heap = heap"
| "acquire_loop ((x, u) # rest) capacity heap =
     acquire_loop rest capacity (push_bounded heap capacity (u, x))"

text \<open>
  The clustered loop: \<open>d_cid_heap[cid]\<close> raises KeyError for a cluster id that
  \<open>cluster_sizes\<close> does not list.
\<close>

fun cluster_loop ::
  "('x \<times> pyfloat \<times> int) list \<Rightarrow> (int \<times> ('x::linorder) entry list \<times> int) list
     \<Rightarrow> error + (int \<times> 'x entry list \<times> int) list" where
  "cluster_loop [] d = Inr d"
| "cluster_loop ((x, u, cid) # rest) d =
     (case map_of d cid of
        None \<Rightarrow> Inl KeyError
      | Some (heap, heap_size) \<Rightarrow>
          cluster_loop rest (AList.update cid (push_bounded heap heap_size (u, x), heap_size) d))"

text \<open>
  \<open>U\<close> is the array of random utilities \<open>metrics.random(np.empty(self.size))\<close>.
  The capacity of a cluster is \<open>math.ceil(self.init_size * cluster_size / U.size)\<close>:
  the product of the two ints is exact, the quotient is a double.
\<close>

definition cluster_capacity :: "int \<Rightarrow> int \<Rightarrow> nat \<Rightarrow> error + int" where
  "cluster_capacity isz cluster_size n =
     (case int_truediv (isz * cluster_size) (int n) of
        Inl e \<Rightarrow> Inl e
      | Inr r \<Rightarrow> Inr \<lceil>r\<rceil>)"

text \<open>The dict comprehension that builds \<open>d_cid_heap\<close>, entry by entry.\<close>

fun init_heaps ::
  "int \<Rightarrow> nat \<Rightarrow> (int \<times> int) list \<Rightarrow> error + (int \<times> ('x::linorder) entry list \<times> int) list" where
  "init_heaps isz n [] = Inr []"
| "init_heaps isz n ((cid, cluster_size) # rest) =
     (case cluster_capacity isz cluster_size n of
        Inl e \<Rightarrow> Inl e
      | Inr capacity \<Rightarrow>
          (case init_heaps isz n rest of
             Inl e \<Rightarrow> Inl e
           | Inr d \<Rightarrow> Inr ((cid, ([], capacity)) # d)))"

definition acquire_initial ::
  "acquirer \<Rightarrow> pyfloat list \<Rightarrow> ('x::linorder) list \<Rightarrow> int list option
     \<Rightarrow> (int \<times> int) list option \<Rightarrow> error + 'x list" where
  "acquire_initial a U xs cluster_ids cluster_sizes =
     (case cluster_sizes of
        None \<Rightarrow>
          (case cluster_ids of
             None \<Rightarrow> Inr (map snd (acquire_loop (zip xs U) (init_size a) []))
           | Some cids \<Rightarrow> Inl AttributeError)
      | Some csz \<Rightarrow>
          (case init_heaps (init_size a) (length U) csz of
             Inl e \<Rightarrow> Inl e
           | Inr d_cid_heap \<Rightarrow>
               (case cluster_ids of
                  None \<Rightarrow> Inl TypeError
                | Some cids \<Rightarrow>
                    (case cluster_loop (zip xs (zip U cids)) d_cid_heap of
                       Inl e \<Rightarrow> Inl e
                     | Inr d \<Rightarrow>
                         Inr (map snd (concat (map (\<lambda>(cid, heap, heap_size). heap) d)))))))"








section \<open>Batch acquisition\<close>

subsection \<open>The reference maximum\<close>

text \<open>
  \<open>np.nan_to_num(ys, nan=-np.inf)\<close>: NaN becomes negative infinity; the infinities,
  whose replacements are left at their defaults, become the largest and the smallest
  finite double.
\<close>

definition DBL_MAX :: real where
  "DBL_MAX = 2 ^ 1024 - 2 ^ 971"

fun nan_to_num :: "pyfloat \<Rightarrow> pyfloat" where
  "nan_to_num NaN = NInf"
| "nan_to_num PInf = Fin DBL_MAX"
| "nan_to_num NInf = Fin (- DBL_MAX)"
| "nan_to_num (Fin x) = Fin x"

fun insort_fl :: "pyfloat \<Rightarrow> pyfloat list \<Rightarrow> pyfloat list" where
  "insort_fl x [] = [x]"
| "insort_fl x (y # ys) = (if fl_lt y x then y # insort_fl x ys else x # y # ys)"

fun sort_fl :: "pyfloat list \<Rightarrow> pyfloat list" where
  "sort_fl [] = []"
| "sort_fl (x # xs) = insort_fl x (sort_fl xs)"

text \<open>
  \<open>np.partition(Y, kth)\<close> raises ValueError when \<open>kth\<close> is out of bounds. Its
  result holds at position \<open>kth\<close> the entry a sort would put there; the sorted array
  stands for it, since that position is the only one the caller reads.
\<close>

definition np_partition :: "pyfloat list \<Rightarrow> int \<Rightarrow> error + pyfloat list" where
  "np_partition Y kth =
     (let n = int (length Y); kth' = (if kth < 0 then kth + n else kth)
      in if 0 \<le> kth' \<and> kth' < n then Inr (sort_fl Y) else Inl ValueError)"

definition current_max :: "int \<Rightarrow> ('x \<times> pyfloat) list \<Rightarrow> int \<Rightarrow> error + pyfloat" where
  "current_max d explored k =
     (if explored \<noteq> [] then
        (let ys = map snd explored in
         if d = 1 then
           (let Y = map nan_to_num ys in
            case np_partition Y (- k) of
              Inl e \<Rightarrow> Inl e
            | Inr P \<Rightarrow> py_index P (- k))
         else Inr NInf)
      else Inr NInf)"

subsection \<open>The epsilon-greedy override\<close>

text \<open>
  The number of forced indices, \<open>int(batch_size * self.epsilon)\<close>: the product of the
  int and the float is a double.
\<close>

definition forced_size :: "int \<Rightarrow> real \<Rightarrow> error + int" where
  "forced_size bsize eps =
     (case mul_int_float bsize eps of
        Inl e \<Rightarrow> Inl e
      | Inr p \<Rightarrow> int_of_float p)"

text \<open>
  \<open>np.random.choice(np.arange(n), replace=False, size=k)\<close> is the first \<open>k\<close>
  entries of a permutation of \<open>0..<n\<close> that numpy's generator draws; the permutation
  \<open>perm\<close> is an input of the model. The call raises ValueError when \<open>k\<close> is
  negative or larger than \<open>n\<close>.
\<close>

definition np_random_choice :: "nat list \<Rightarrow> nat \<Rightarrow> int \<Rightarrow> error + nat list" where
  "np_random_choice perm n k =
     (if k < 0 \<or> int n < k then Inl ValueError else Inr (take (nat k) perm))"

definition epsilon_override ::
  "pyfloat list \<Rightarrow> int \<Rightarrow> real \<Rightarrow> nat list \<Rightarrow> error + pyfloat list" where
  "epsilon_override U bsize eps perm =
     (case forced_size bsize eps of
        Inl e \<Rightarrow> Inl e
      | Inr k \<Rightarrow>
          (case np_random_choice perm (length U) k of
             Inl e \<Rightarrow> Inl e
           | Inr idxs \<Rightarrow> Inr (fold (\<lambda>i V. V[i := PInf]) idxs U)))"

subsection \<open>Plain top-k\<close>

fun top_k_loop ::
  "('x \<times> pyfloat) list \<Rightarrow> int \<Rightarrow> ('x \<times> 'v) list \<Rightarrow> ('x::linorder) entry list
     \<Rightarrow> 'x entry list" where
  "top_k_loop [] bsize explored heap = heap"
| "top_k_loop ((x, u) # rest) bsize explored heap =
     (if dict_contains explored x then top_k_loop rest bsize explored heap
      else top_k_loop rest bsize explored (push_bounded heap bsize (u, x)))"

definition top_k ::
  "('x::linorder) list \<Rightarrow> pyfloat list \<Rightarrow> int \<Rightarrow> ('x \<times> 'v) list \<Rightarrow> 'x entry list" where
  "top_k xs U bsize explored = top_k_loop (zip xs U) bsize explored []"

subsection \<open>Clustered selection\<close>

text \<open>
  The collaborators of a batch acquisition. \<open>metrics_calc\<close> is the scoring module's
  \<open>calc\<close> as a function of the two arguments the Acquirer computes (the reference
  maximum and \<open>top_n_scored\<close>); the predictions and the hyperparameters are fixed
  inside it. \<open>cluster_objs\<close> and \<open>cluster_feats\<close> are the clustering backend
  applied to the predicted objectives and to the feature matrix of the superset's items;
  each returns the cluster ids or the backend's failure.
\<close>

record 'x collaborators =
  metrics_calc :: "pyfloat \<Rightarrow> int \<Rightarrow> pyfloat list"
  cluster_objs :: "'x list \<Rightarrow> int \<Rightarrow> error + int list"
  cluster_feats :: "'x list \<Rightarrow> int \<Rightarrow> error + int list"

definition np_unique :: "int list \<Rightarrow> int list" where
  "np_unique cids = remdups (sort cids)"

fun fill_clusters ::
  "(int \<times> 'x \<times> pyfloat) list \<Rightarrow> (int \<Rightarrow> ('x::linorder) entry list) \<Rightarrow> (int \<Rightarrow> 'x entry list)" where
  "fill_clusters [] clusters = clusters"
| "fill_clusters ((cid, x, u) # rest) clusters =
     fill_clusters rest (clusters(cid := heappush (clusters cid) (fl_neg u, x)))"

text \<open>
  \<open>sorted(clusters, key=lambda k: len(clusters[k]), reverse=True)\<close>: a stable sort of
  the keys by descending population.
\<close>

definition cluster_order :: "int list \<Rightarrow> (int \<Rightarrow> 'x entry list) \<Rightarrow> int list" where
  "cluster_order keys clusters = sort_key (\<lambda>k. - int (length (clusters k))) keys"

text \<open>
  The extraction loop. \<open>n\<close> counts the calls of \<open>next(cluster_cycle)\<close>; on an empty
  order the first call raises StopIteration. The loop has no other exit than a full batch,
  so it is a partial function: \<open>None\<close> is the loop that never returns.
\<close>

partial_function (option) rr_loop ::
  "(int \<Rightarrow> ('x::linorder) entry list) \<Rightarrow> int list \<Rightarrow> nat \<Rightarrow> 'x entry list \<Rightarrow> int
     \<Rightarrow> (error + 'x entry list) option" where
  "rr_loop clusters order n heap bsize =
     (if int (length heap) < bsize then
        (if order = [] then Some (Inl StopIteration)
         else
           (let cid = order ! (n mod length order) in
            if length (clusters cid) > 0 then
              (let popped = heappop (clusters cid) in
               rr_loop (clusters(cid := snd popped)) order (n + 1)
                 (heap @ [(fl_neg (fst (fst popped)), snd (fst popped))]) bsize)
            else rr_loop clusters order (n + 1) heap bsize))
      else Some (Inr heap))"

definition round_robin ::
  "int list \<Rightarrow> (int \<Rightarrow> ('x::linorder) entry list) \<Rightarrow> int \<Rightarrow> (error + 'x entry list) option" where
  "round_robin keys clusters bsize = rr_loop clusters (cluster_order keys clusters) 0 [] bsize"

text \<open>
  The superset is \<open>self.top_k(xs, U, self.cluster_superset, explored)\<close>. When
  \<open>cluster_superset\<close> is \<open>None\<close> the comparison \<open>len(heap) < batch_size\<close>
  raises TypeError at the first item that is not explored.
\<close>

definition superset_of ::
  "acquirer \<Rightarrow> ('x::linorder) list \<Rightarrow> pyfloat list \<Rightarrow> ('x \<times> 'v) list \<Rightarrow> error + 'x entry list" where
  "superset_of a xs U explored =
     (case cluster_superset a of
        Some cs \<Rightarrow> Inr (top_k xs U cs explored)
      | None \<Rightarrow>
          if list_ex (\<lambda>(x, u). \<not> dict_contains explored x) (zip xs U) then Inl TypeError
          else Inr [])"

text \<open>
  \<open>clustered_batch\<close>. \<open>np.stack\<close> of no arrays raises ValueError, so an empty
  superset fails unless the cluster type is \<open>fps\<close>. Every superset item has a
  prediction, since \<open>preds\<close> is built from the same \<open>xs\<close>.
\<close>

definition clustered_batch ::
  "acquirer \<Rightarrow> 'x collaborators \<Rightarrow> ('x::linorder) list \<Rightarrow> pyfloat list \<Rightarrow> int \<Rightarrow> ('x \<times> 'v) list
     \<Rightarrow> (error + 'x entry list) option" where
  "clustered_batch a ext xs U bsize explored =
     (case superset_of a xs U explored of
        Inl e \<Rightarrow> Some (Inl e)
      | Inr superset \<Rightarrow>
          (let superset_xs = map snd superset;
               superset_us = map fst superset;
               ids = (if cluster_type a = Some ''fps'' then cluster_feats ext superset_xs bsize
                      else if superset_xs = [] then Inl ValueError
                      else cluster_objs ext superset_xs bsize)
           in case ids of
                Inl e \<Rightarrow> Some (Inl e)
              | Inr cluster_ids \<Rightarrow>
                  (let clusters =
                         fill_clusters (zip cluster_ids (zip superset_xs superset_us)) (\<lambda>cid. [])
                   in round_robin (np_unique cluster_ids) clusters bsize)))"

text \<open>
  \<open>cluster_both\<close>: the objective-space half first, then the feature-space half with the
  first half's items added to the exclusion dict.
\<close>

definition dont_acquire_of ::
  "('x \<times> pyfloat) list \<Rightarrow> 'x entry list \<Rightarrow> ('x \<times> pyfloat) list" where
  "dont_acquire_of explored heap_objs = fold (\<lambda>(u, x) d. AList.update x u d) heap_objs explored"

definition cluster_both ::
  "acquirer \<Rightarrow> 'x collaborators \<Rightarrow> ('x::linorder) list \<Rightarrow> pyfloat list \<Rightarrow> int
     \<Rightarrow> ('x \<times> pyfloat) list \<Rightarrow> (error + 'x entry list) option" where
  "cluster_both a ext xs U bsize explored =
     (let batch_size_objs = \<lceil>real_of_int bsize / 2\<rceil>;
          batch_size_fps = bsize - batch_size_objs
      in case clustered_batch (a\<lparr>cluster_type := Some ''objs''\<rparr>) ext xs U batch_size_objs explored of
           None \<Rightarrow> None
         | Some (Inl e) \<Rightarrow> Some (Inl e)
         | Some (Inr heap_objs) \<Rightarrow>
             (let dont_acquire = dont_acquire_of explored heap_objs
              in case clustered_batch (a\<lparr>cluster_type := Some ''fps''\<rparr>) ext xs U batch_size_fps
                        dont_acquire of
                   None \<Rightarrow> None
                 | Some (Inl e) \<Rightarrow> Some (Inl e)
                 | Some (Inr heap_fps) \<Rightarrow> Some (Inr (heap_fps @ heap_objs))))"

subsection \<open>acquire_batch\<close>

text \<open>
  The whole round for scalar outcomes. The update of the Pareto front (the branch
  \<open>dim > 1\<close>) changes only the front that the scoring module reads and is not
  modelled. \<open>t\<close> is optional in the source; indexing the schedule with \<open>None\<close>
  raises TypeError.
\<close>

definition acquire_batch ::
  "acquirer \<Rightarrow> 'x collaborators \<Rightarrow> ('x::linorder) list \<Rightarrow> ('x \<times> pyfloat) list \<Rightarrow> int
     \<Rightarrow> int option \<Rightarrow> nat list \<Rightarrow> (error + 'x list) option" where
  "acquire_batch a ext xs explored k t perm =
     (case current_max (dim a) explored k of
        Inl e \<Rightarrow> Some (Inl e)
      | Inr cmax \<Rightarrow>
     (case (case t of None \<Rightarrow> Inl TypeError | Some t' \<Rightarrow> batch_size a t') of
        Inl e \<Rightarrow> Some (Inl e)
      | Inr bsize \<Rightarrow>
     (let top_n_scored =
            (if cluster_superset a \<noteq> None \<and> cluster_superset a \<noteq> Some 0
             then the (cluster_superset a) else bsize)
      in case epsilon_override (metrics_calc ext cmax top_n_scored) bsize (epsilon a) perm of
           Inl e \<Rightarrow> Some (Inl e)
         | Inr U \<Rightarrow>
             map_option (map_sum id (map snd))
               (if cluster_type a = None then Some (Inr (top_k xs U bsize explored))
                else if cluster_type a = Some ''fps'' \<or> cluster_type a = Some ''objs''
                then clustered_batch a ext xs U bsize explored
                else if cluster_type a = Some ''both''
                then cluster_both a ext xs U bsize explored
                else Some (Inr (top_k xs U bsize explored))))))"

section \<open>Temperature-based rescaling\<close>

text \<open>
  \<open>_calc_temp\<close> and \<open>_calc_decay\<close> with the exponential of the reals: the rounding
  of \<open>math.exp\<close> and its OverflowError for a large argument are left out.
\<close>

definition calc_temp :: "int \<Rightarrow> real \<Rightarrow> real \<Rightarrow> real" where
  "calc_temp t ti tf = ti * exp (- (real_of_int t) / 0.75) + tf"

text \<open>
  \<open>_calc_decay\<close> receives whatever the caller passes as \<open>local_max\<close>: a float, or
  the heap entry (a tuple), for which \<open>global_max - local_max\<close> raises TypeError
  before the division is reached.
\<close>

datatype 'x pyarg = Float real | Tuple "'x entry"

definition calc_decay :: "real \<Rightarrow> 'x pyarg \<Rightarrow> real \<Rightarrow> error + real" where
  "calc_decay global_max local_max temp =
     (case local_max of
        Tuple yx \<Rightarrow> Inl TypeError
      | Float l \<Rightarrow>
          if temp = 0 then Inl ZeroDivisionError
          else Inr (exp (- (global_max - l) / temp)))"

text \<open>
  \<open>max(heap, key=lambda yx: -1 if math.isinf(yx[0]) else yx[0])\<close>: the first entry
  whose key no later entry exceeds.
\<close>

definition score_key :: "'x entry \<Rightarrow> pyfloat" where
  "score_key yx = (if isinf (fst yx) then Fin (- 1) else fst yx)"

fun max_by_key :: "'x entry \<Rightarrow> 'x entry list \<Rightarrow> 'x entry" where
  "max_by_key best [] = best"
| "max_by_key best (yx # rest) =
     (if fl_lt (score_key best) (score_key yx) then max_by_key yx rest
      else max_by_key best rest)"

text \<open>
  \<open>heapq.nlargest(n, heap)\<close>: the \<open>n\<close> largest entries, largest first, for
  entries whose scores are not NaN.
\<close>

fun insort_desc :: "('x::linorder) entry \<Rightarrow> 'x entry list \<Rightarrow> 'x entry list" where
  "insort_desc e [] = [e]"
| "insort_desc e (y # ys) = (if tuple_lt e y then y # insort_desc e ys else e # y # ys)"

definition nlargest :: "int \<Rightarrow> ('x::linorder) entry list \<Rightarrow> 'x entry list" where
  "nlargest n heap = take (nat n) (foldr insort_desc heap [])"

text \<open>
  \<open>_scale_heaps\<close>: the loop over \<open>d_cid_heap.items()\<close>. The entry that \<open>max\<close>
  returns is passed to \<open>_calc_decay\<close> as it is.
\<close>

fun scale_loop ::
  "(int \<times> ('x::linorder) entry list \<times> int) list \<Rightarrow> real \<Rightarrow> real
     \<Rightarrow> (int \<times> 'x entry list \<times> int) list \<Rightarrow> error + (int \<times> 'x entry list \<times> int) list" where
  "scale_loop [] pred_global_max temp d = Inr d"
| "scale_loop ((cid, heap, heap_size) # rest) pred_global_max temp d =
     (if length heap = 0 then scale_loop rest pred_global_max temp d
      else
        (let pred_local_max = max_by_key (hd heap) (tl heap) in
         case calc_decay pred_global_max (Tuple pred_local_max) temp of
           Inl e \<Rightarrow> Inl e
         | Inr f \<Rightarrow>
             (let new_heap_size = \<lceil>f * real_of_int heap_size\<rceil>;
                  new_heap = nlargest new_heap_size heap
              in scale_loop rest pred_global_max temp
                   (AList.update cid (new_heap, new_heap_size) d))))"

definition scale_heaps ::
  "(int \<times> ('x::linorder) entry list \<times> int) list \<Rightarrow> real \<Rightarrow> int \<Rightarrow> real \<Rightarrow> real
     \<Rightarrow> error + (int \<times> 'x entry list \<times> int) list" where
  "scale_heaps d_cid_heap pred_global_max t ti tf =
     (let temp = calc_temp t ti tf
      in scale_loop d_cid_heap pred_global_max temp d_cid_heap)"

section \<open>Notions of the specification\<close>

text \<open>
  The \<open>k\<close>-th largest value of an array, said without sorting: \<open>v\<close> occurs in
  \<open>Y\<close>, fewer than \<open>k\<close> entries are greater than \<open>v\<close>, and at least \<open>k\<close>
  entries are not less than \<open>v\<close>.
\<close>

definition kth_largest :: "pyfloat list \<Rightarrow> nat \<Rightarrow> pyfloat \<Rightarrow> bool" where
  "kth_largest Y k v =
     (v \<in> set Y \<and> length (filter (\<lambda>y. fl_lt v y) Y) < k
      \<and> k \<le> length (filter (\<lambda>y. \<not> fl_lt y v) Y))"

text \<open>
  The entry the extraction loop collects when it visits a non-empty cluster: the popped
  minimum of the cluster's heap of \<open>(-u, x)\<close>, with the utility's sign restored.
\<close>

definition popped_entry :: "('x::linorder) entry list \<Rightarrow> 'x entry" where
  "popped_entry cluster = (fl_neg (fst (fst (heappop cluster))), snd (fst (heappop cluster)))"

section \<open>Properties of the heap operations\<close>

text \<open>
  The heap operations permute the list: what is pushed is in the heap, what is popped was
  in it, and nothing else changes. The recursive equations are unfolded by hand.
\<close>

declare siftdown_loop.simps [simp del] siftup_loop.simps [simp del]

lemma length_siftdown_loop [simp]: "length (siftdown_loop h s p n) = length h"
  by (induction h s p n rule: siftdown_loop.induct)
     (subst siftdown_loop.simps, simp add: Let_def)

lemma mset_siftdown_loop:
  "p < length h \<Longrightarrow> mset (siftdown_loop h s p n) = mset (h[p := n])"
proof (induction h s p n rule: siftdown_loop.induct)
  case (1 heap startpos pos newitem)
  show ?case
  proof (cases "pos > startpos \<and> tuple_lt newitem (heap ! ((pos - 1) div 2))")
    case True
    let ?pp = "(pos - 1) div 2"
    have pp: "?pp < length heap" "?pp < pos" using "1.prems" True by auto
    have "mset (siftdown_loop heap startpos pos newitem)
          = mset (siftdown_loop (heap[pos := heap ! ?pp]) startpos ?pp newitem)"
      using True by (subst siftdown_loop.simps) (simp add: Let_def)
    also have "\<dots> = mset ((heap[pos := heap ! ?pp])[?pp := newitem])"
      using "1.IH"[OF _ refl refl] True pp by simp
    also have "\<dots> = mset (heap[pos := newitem])"
      using pp "1.prems" by (simp add: mset_update nth_list_update)
    finally show ?thesis .
  next
    case False
    then show ?thesis by (subst siftdown_loop.simps) (auto simp: Let_def)
  qed
qed

lemma length_siftup_loop [simp]: "length (fst (siftup_loop h p)) = length h"
  by (induction h p rule: siftup_loop.induct)
     (subst siftup_loop.simps, simp add: Let_def)

lemma siftup_loop_pos: "p < length h \<Longrightarrow> snd (siftup_loop h p) < length h"
  by (induction h p rule: siftup_loop.induct)
     (subst siftup_loop.simps, simp add: Let_def)

lemma mset_siftup_loop:
  "p < length h \<Longrightarrow>
   mset ((fst (siftup_loop h p))[snd (siftup_loop h p) := x]) = mset (h[p := x])"
proof (induction h p arbitrary: x rule: siftup_loop.induct)
  case (1 heap pos)
  let ?c = "2 * pos + 1"
  show ?case
  proof (cases "?c < length heap")
    case True
    define child where "child = (if ?c + 1 < length heap \<and> \<not> tuple_lt (heap ! ?c) (heap ! (?c + 1))
                      then ?c + 1 else ?c)"
    have ch: "child < length heap" "pos \<noteq> child" using True by (auto simp: child_def)
    have step: "siftup_loop heap pos = siftup_loop (heap[pos := heap ! child]) child"
      using True by (subst siftup_loop.simps) (simp add: Let_def child_def)
    have "mset ((fst (siftup_loop heap pos))[snd (siftup_loop heap pos) := x])
          = mset ((heap[pos := heap ! child])[child := x])"
      unfolding step
      using "1.IH"[OF refl refl True refl refl, of x] ch by (simp add: child_def)
    also have "\<dots> = mset (heap[pos := x])"
      using ch "1.prems" by (simp add: mset_update nth_list_update)
    finally show ?thesis .
  next
    case False
    then show ?thesis by (subst (1 2) siftup_loop.simps) (simp add: Let_def)
  qed
qed

lemma length_siftup [simp]: "length (siftup h p) = length h"
  by (simp add: siftup_def Let_def)

lemma mset_siftup: "p < length h \<Longrightarrow> mset (siftup h p) = mset h"
  by (simp add: siftup_def Let_def mset_siftdown_loop siftup_loop_pos mset_siftup_loop)

lemma length_heappush [simp]: "length (heappush h e) = Suc (length h)"
  by (simp add: heappush_def siftdown_def)

lemma mset_heappush [simp]: "mset (heappush h e) = add_mset e (mset h)"
  by (simp add: heappush_def siftdown_def mset_siftdown_loop)

lemma set_heappush [simp]: "set (heappush h e) = insert e (set h)"
  using mset_heappush[of h e] by (metis set_mset_add_mset_insert set_mset_mset)

lemma length_heappushpop [simp]: "length (snd (heappushpop h e)) = length h"
  by (simp add: heappushpop_def)

lemma mset_heappushpop:
  "add_mset (fst (heappushpop h e)) (mset (snd (heappushpop h e))) = add_mset e (mset h)"
  by (cases h) (auto simp: heappushpop_def mset_siftup)

lemma set_heappushpop: "set (snd (heappushpop h e)) \<subseteq> insert e (set h)"
proof -
  have "set_mset (mset (snd (heappushpop h e))) \<subseteq> set_mset (add_mset e (mset h))"
    by (metis mset_heappushpop set_mset_add_mset_insert subset_insertI)
  then show ?thesis by simp
qed

lemma mset_heappop:
  "h \<noteq> [] \<Longrightarrow> add_mset (fst (heappop h)) (mset (snd (heappop h))) = mset h"
proof -
  assume ne: "h \<noteq> []"
  then obtain r l where h: "h = r @ [l]" by (metis append_butlast_last_id)
  show ?thesis
  proof (cases r)
    case Nil
    then show ?thesis using h by (simp add: heappop_def)
  next
    case (Cons a r')
    then show ?thesis using h by (simp add: heappop_def mset_siftup)
  qed
qed

lemma length_heappop: "h \<noteq> [] \<Longrightarrow> length (snd (heappop h)) = length h - 1"
  by (cases h rule: rev_cases) (auto simp: heappop_def Let_def)

section \<open>Plain top-k and the batch-size schedule\<close>

lemma length_push_bounded:
  "length (push_bounded heap cap e) = (if int (length heap) < cap then Suc (length heap) else length heap)"
  by (simp add: push_bounded_def)

lemma set_push_bounded: "set (push_bounded heap cap e) \<subseteq> insert e (set heap)"
  using set_heappushpop[of heap e] by (auto simp: push_bounded_def)

lemma length_top_k_loop:
  "int (length heap) \<le> bsize \<Longrightarrow>
   length (top_k_loop zs bsize explored heap)
     = min (nat bsize) (length heap + length (filter (\<lambda>z. \<not> dict_contains explored (fst z)) zs))"
proof (induction zs bsize explored heap rule: top_k_loop.induct)
  case (1 bsize explored heap)
  then show ?case by simp
next
  case (2 x u rest bsize explored heap)
  show ?case
  proof (cases "dict_contains explored x")
    case True
    then show ?thesis using 2 by simp
  next
    case False
    have le: "int (length (push_bounded heap bsize (u, x))) \<le> bsize"
      using "2.prems" by (simp add: length_push_bounded)
    show ?thesis
      using False "2.IH"(2)[OF False le] "2.prems"
      by (auto simp: length_push_bounded)
  qed
qed

lemma set_top_k_loop:
  "snd ` set (top_k_loop zs bsize explored heap)
     \<subseteq> snd ` set heap \<union> {x \<in> fst ` set zs. \<not> dict_contains explored x}"
proof (induction zs bsize explored heap rule: top_k_loop.induct)
  case (1 bsize explored heap)
  then show ?case by simp
next
  case (2 x u rest bsize explored heap)
  show ?case
  proof (cases "dict_contains explored x")
    case True
    then show ?thesis using "2.IH"(1) by auto
  next
    case False
    have h: "snd ` set (push_bounded heap bsize (u, x)) \<subseteq> insert x (snd ` set heap)"
      using set_push_bounded[of heap bsize "(u, x)"] by auto
    have "snd ` set (top_k_loop ((x, u) # rest) bsize explored heap)
            = snd ` set (top_k_loop rest bsize explored (push_bounded heap bsize (u, x)))"
      using False by simp
    also have "\<dots> \<subseteq> snd ` set (push_bounded heap bsize (u, x))
                       \<union> {y \<in> fst ` set rest. \<not> dict_contains explored y}"
      by (rule "2.IH"(2)[OF False])
    also have "\<dots> \<subseteq> snd ` set heap
                       \<union> {y \<in> fst ` set ((x, u) # rest). \<not> dict_contains explored y}"
      using h False by auto
    finally show ?thesis .
  qed
qed

lemma dict_contains_iff: "dict_contains d k \<longleftrightarrow> k \<in> fst ` set d"
  by (simp add: dict_contains_def map_of_eq_None_iff)

lemma filter_zip_fst:
  "length U = length xs \<Longrightarrow>
   length (filter (\<lambda>z. P (fst z)) (zip xs U)) = length (filter P xs)"
proof (induction xs arbitrary: U)
  case Nil
  then show ?case by simp
next
  case (Cons x xs)
  then obtain u U' where "U = u # U'" by (cases U) auto
  then show ?case using Cons by simp
qed

lemma top_k_items:
  "snd ` set (top_k xs U bsize explored) \<subseteq> {x \<in> set xs. \<not> dict_contains explored x}"
proof -
  have "fst ` set (zip xs U) \<subseteq> set xs"
    by (auto dest: set_zip_leftD)
  then have "{x \<in> fst ` set (zip xs U). \<not> dict_contains explored x}
               \<subseteq> {x \<in> set xs. \<not> dict_contains explored x}"
    by blast
  moreover have "snd ` set (top_k xs U bsize explored)
                   \<subseteq> {x \<in> fst ` set (zip xs U). \<not> dict_contains explored x}"
    using set_top_k_loop[of "zip xs U" bsize explored "[]"] by (simp add: top_k_def)
  ultimately show ?thesis by (rule order_trans[rotated])
qed

lemma top_k_items_count:
  assumes "distinct xs" and "length U = length xs" and "0 \<le> bsize"
  shows "snd ` set (top_k xs U bsize explored) \<inter> fst ` set explored = {}
         \<and> length (top_k xs U bsize explored)
             = min (nat bsize) (card (set xs - fst ` set explored))"
proof -
  have a: "snd ` set (top_k xs U bsize explored) \<inter> fst ` set explored = {}"
    using top_k_items[of xs U bsize explored] by (auto simp: dict_contains_iff)
  have "length (filter (\<lambda>x. \<not> dict_contains explored x) xs)
          = card (set xs - fst ` set explored)"
  proof -
    have "set (filter (\<lambda>x. \<not> dict_contains explored x) xs) = set xs - fst ` set explored"
      by (auto simp: dict_contains_iff)
    moreover have "distinct (filter (\<lambda>x. \<not> dict_contains explored x) xs)"
      using assms(1) by simp
    ultimately show ?thesis by (metis distinct_card)
  qed
  then have b: "length (top_k xs U bsize explored)
                  = min (nat bsize) (card (set xs - fst ` set explored))"
    using length_top_k_loop[of "[]" bsize "zip xs U" explored] assms(2,3)
          filter_zip_fst[of U xs "\<lambda>x. \<not> dict_contains explored x"]
    by (simp add: top_k_def)
  show ?thesis using a b by simp
qed

text \<open>
  Claim C1. For a pool of pairwise distinct items, with one utility per item and a
  non-negative batch size, the heap that \<open>top_k\<close> returns holds no item that is a key
  of the explored dict, and it holds exactly \<open>min(batch_size, |pool \ explored|)\<close>
  entries.
\<close>

theorem top_k_unexplored_count:
  assumes "distinct xs" and "length U = length xs" and "0 \<le> bsize"
  shows "snd ` set (top_k xs U bsize explored) \<inter> fst ` set explored = {}
         \<and> length (top_k xs U bsize explored)
             = min (nat bsize) (card (set xs - fst ` set explored))"
  using assms by (rule top_k_items_count)

theorem top_k_unexplored_count_witness:
  "distinct [1::nat, 2, 3, 4] \<and> length [Fin 1, Fin 3, Fin 2, PInf] = length [1::nat, 2, 3, 4]
   \<and> (0::int) \<le> 2
   \<and> snd ` set (top_k [1::nat, 2, 3, 4] [Fin 1, Fin 3, Fin 2, PInf] 2 [(2::nat, Fin 0)])
        \<inter> fst ` set [(2::nat, Fin 0)] = {}
   \<and> length (top_k [1::nat, 2, 3, 4] [Fin 1, Fin 3, Fin 2, PInf] 2 [(2::nat, Fin 0)])
        = min (nat 2) (card (set [1::nat, 2, 3, 4] - fst ` set [(2::nat, Fin 0)]))"
  using top_k_unexplored_count[of "[1::nat, 2, 3, 4]" "[Fin 1, Fin 3, Fin 2, PInf]" 2 "[(2::nat, Fin 0)]"]
  by simp

text \<open>
  Claim C7. For a non-empty schedule \<open>S\<close> and a round \<open>t \<ge> 0\<close>,
  \<open>batch_size(t)\<close> raises nothing and returns \<open>S[t]\<close> when \<open>t < len(S)\<close> and
  the last entry \<open>S[-1]\<close> otherwise.
\<close>

theorem batch_size_total:
  assumes "batch_sizes a \<noteq> []" and "0 \<le> t"
  shows "batch_size a t
           = Inr (if t < int (length (batch_sizes a)) then batch_sizes a ! nat t
                  else last (batch_sizes a))"
proof -
  let ?S = "batch_sizes a"
  have n: "nat (int (length ?S) - 1) = length ?S - 1" by arith
  have pos: "Suc 0 \<le> length ?S" using assms(1) by (cases ?S) auto
  show ?thesis
    using assms n pos by (auto simp: batch_size_def py_index_def last_conv_nth)
qed

theorem batch_size_total_witness:
  "batch_sizes \<lparr> size_a = 100, init_size = 1, batch_sizes = [10, 20], dim = 1,
                  cluster_type = None, cluster_superset = None, epsilon = 0,
                  temp_i = None, temp_f = None \<rparr> \<noteq> []
   \<and> (0::int) \<le> 5
   \<and> batch_size \<lparr> size_a = 100, init_size = 1, batch_sizes = [10, 20], dim = 1,
                  cluster_type = None, cluster_superset = None, epsilon = 0,
                  temp_i = None, temp_f = None \<rparr> 5 = Inr 20"
  using batch_size_total[of "\<lparr> size_a = 100, init_size = 1, batch_sizes = [10, 20], dim = 1,
                  cluster_type = None, cluster_superset = None, epsilon = 0,
                  temp_i = None, temp_f = None \<rparr>" 5]
  by simp

section \<open>The reference maximum\<close>

lemma fl_lt_irrefl [simp]: "\<not> fl_lt a a"
  by (cases a) auto

lemma fl_lt_trans: "fl_lt a b \<Longrightarrow> fl_lt b c \<Longrightarrow> fl_lt a c"
  by (cases a; cases b; cases c) auto

lemma fl_lt_total: "a \<noteq> NaN \<Longrightarrow> b \<noteq> NaN \<Longrightarrow> fl_lt a b \<or> a = b \<or> fl_lt b a"
  by (cases a; cases b) auto

lemma fl_lt_asym: "fl_lt a b \<Longrightarrow> \<not> fl_lt b a"
  by (cases a; cases b) auto

lemma nan_to_num_no_nan [simp]: "nan_to_num y \<noteq> NaN"
  by (cases y) auto

lemma mset_insort_fl [simp]: "mset (insort_fl x ys) = add_mset x (mset ys)"
  by (induction ys) auto

lemma mset_sort_fl [simp]: "mset (sort_fl ys) = mset ys"
  by (induction ys) auto

lemma set_sort_fl [simp]: "set (sort_fl ys) = set ys"
  by (metis mset_sort_fl set_mset_mset)

lemma length_sort_fl [simp]: "length (sort_fl ys) = length ys"
  by (metis mset_sort_fl size_mset)

lemma set_insort_fl [simp]: "set (insort_fl x ys) = insert x (set ys)"
  by (induction ys) auto

lemma sorted_insort_fl:
  "x \<noteq> NaN \<Longrightarrow> NaN \<notin> set ys \<Longrightarrow> sorted_wrt (\<lambda>a b. \<not> fl_lt b a) ys \<Longrightarrow>
   sorted_wrt (\<lambda>a b. \<not> fl_lt b a) (insort_fl x ys)"
proof (induction ys)
  case Nil
  then show ?case by simp
next
  case (Cons y ys)
  show ?case
  proof (cases "fl_lt y x")
    case True
    then have "\<not> fl_lt x y" by (rule fl_lt_asym)
    then show ?thesis using True Cons by auto
  next
    case False
    have "\<not> fl_lt z x" if "z \<in> set ys" for z
    proof
      assume zx: "fl_lt z x"
      have "\<not> fl_lt z y" using Cons.prems(3) that by auto
      moreover have "z \<noteq> NaN" "y \<noteq> NaN" using Cons.prems(2) that by auto
      ultimately have "y = z \<or> fl_lt y z" using fl_lt_total[of y z] by auto
      then show False using zx False fl_lt_trans by blast
    qed
    then show ?thesis using False Cons by auto
  qed
qed

lemma sorted_sort_fl:
  "NaN \<notin> set ys \<Longrightarrow> sorted_wrt (\<lambda>a b. \<not> fl_lt b a) (sort_fl ys)"
  by (induction ys) (auto intro: sorted_insort_fl)

lemma length_filter_mset_eq:
  "mset xs = mset ys \<Longrightarrow> length (filter P xs) = length (filter P ys)"
  by (metis mset_filter size_mset)

lemma sorted_nth_rank:
  assumes "sorted_wrt (\<lambda>a b. \<not> fl_lt b a) S" and "i < length S"
  shows "length (filter (\<lambda>y. fl_lt (S ! i) y) S) < length S - i"
    and "length S - i \<le> length (filter (\<lambda>y. \<not> fl_lt y (S ! i)) S)"
proof -
  let ?v = "S ! i"
  have low: "\<not> fl_lt ?v y" if "y \<in> set (take (Suc i) S)" for y
  proof -
    from that obtain j where j: "j < Suc i" "j < length S" "y = S ! j"
      by (auto simp: in_set_conv_nth)
    show ?thesis
    proof (cases "j = i")
      case True
      then show ?thesis using j by simp
    next
      case False
      then have "j < i" using j by simp
      then show ?thesis using assms j by (simp add: sorted_wrt_iff_nth_less)
    qed
  qed
  have high: "\<not> fl_lt y ?v" if "y \<in> set (drop i S)" for y
  proof -
    from that obtain j where j: "i \<le> j" "j < length S" "y = S ! j"
      by (auto simp: in_set_conv_nth) (metis add.commute le_add2 less_diff_conv)
    show ?thesis
    proof (cases "j = i")
      case True
      then show ?thesis using j by simp
    next
      case False
      then have "i < j" using j by simp
      then show ?thesis using assms j by (simp add: sorted_wrt_iff_nth_less)
    qed
  qed
  have "filter (\<lambda>y. fl_lt ?v y) S
          = filter (\<lambda>y. fl_lt ?v y) (take (Suc i) S) @ filter (\<lambda>y. fl_lt ?v y) (drop (Suc i) S)"
    by (metis append_take_drop_id filter_append)
  also have "filter (\<lambda>y. fl_lt ?v y) (take (Suc i) S) = []"
    using low by (simp add: filter_empty_conv)
  finally have "length (filter (\<lambda>y. fl_lt ?v y) S) \<le> length (drop (Suc i) S)"
    using length_filter_le[of "\<lambda>y. fl_lt ?v y" "drop (Suc i) S"] by simp
  then show "length (filter (\<lambda>y. fl_lt ?v y) S) < length S - i"
    using assms(2) by simp
  have "filter (\<lambda>y. \<not> fl_lt y ?v) S
          = filter (\<lambda>y. \<not> fl_lt y ?v) (take i S) @ filter (\<lambda>y. \<not> fl_lt y ?v) (drop i S)"
    by (metis append_take_drop_id filter_append)
  also have "filter (\<lambda>y. \<not> fl_lt y ?v) (drop i S) = drop i S"
    using high by (simp add: filter_id_conv)
  finally have "length (filter (\<lambda>y. \<not> fl_lt y ?v) S) \<ge> length (drop i S)"
    by simp
  then show "length S - i \<le> length (filter (\<lambda>y. \<not> fl_lt y ?v) S)"
    by simp
qed

lemma kth_largest_sort_fl:
  assumes "NaN \<notin> set Y" and "1 \<le> k" and "k \<le> length Y"
  shows "kth_largest Y k (sort_fl Y ! (length Y - k))"
proof -
  let ?S = "sort_fl Y"
  let ?i = "length Y - k"
  have i: "?i < length ?S" using assms by simp
  have s: "sorted_wrt (\<lambda>a b. \<not> fl_lt b a) ?S" using assms(1) by (rule sorted_sort_fl)
  have k: "length ?S - ?i = k" using assms by simp
  have "?S ! ?i \<in> set ?S" using i by (rule nth_mem)
  then have m: "?S ! ?i \<in> set Y" by simp
  have a: "length (filter (\<lambda>y. fl_lt (?S ! ?i) y) Y) < k"
    using sorted_nth_rank(1)[OF s i] k
          length_filter_mset_eq[of Y ?S "\<lambda>y. fl_lt (?S ! ?i) y"] by simp
  have b: "k \<le> length (filter (\<lambda>y. \<not> fl_lt y (?S ! ?i)) Y)"
    using sorted_nth_rank(2)[OF s i] k
          length_filter_mset_eq[of Y ?S "\<lambda>y. \<not> fl_lt y (?S ! ?i)"] by simp
  show ?thesis using m a b by (simp add: kth_largest_def)
qed

text \<open>
  Claim C3, as amended. When the explored dict is non-empty, \<open>dim = 1\<close> and
  \<open>1 \<le> k \<le> len(explored)\<close>, the reference maximum is the \<open>k\<close>-th largest of
  the explored outcomes after \<open>nan_to_num\<close>, which replaces NaN by negative infinity
  and the infinities by the largest and the smallest finite double.
\<close>

theorem current_max_kth_largest:
  assumes "explored \<noteq> []" and "1 \<le> k" and "k \<le> int (length explored)"
  shows "\<exists>v. current_max 1 explored k = Inr v
             \<and> kth_largest (map nan_to_num (map snd explored)) (nat k) v"
proof -
  let ?Y = "map nan_to_num (map snd explored)"
  have nn: "NaN \<notin> set ?Y"
    using nan_to_num_no_nan by (auto simp del: nan_to_num_no_nan) metis
  have idx: "nat (int (length explored) + - k) = length ?Y - nat k"
    using assms by simp
  have "current_max 1 explored k = Inr (sort_fl ?Y ! (length ?Y - nat k))"
    using assms idx by (simp add: current_max_def np_partition_def py_index_def Let_def)
  moreover have "kth_largest ?Y (nat k) (sort_fl ?Y ! (length ?Y - nat k))"
    using assms by (intro kth_largest_sort_fl[OF nn]) auto
  ultimately show ?thesis by blast
qed

theorem current_max_kth_largest_witness:
  "[(1::nat, Fin 3), (2, NaN), (3, Fin 5)] \<noteq> [] \<and> (1::int) \<le> 1
   \<and> (1::int) \<le> int (length [(1::nat, Fin 3), (2, NaN), (3, Fin 5)])
   \<and> current_max 1 [(1::nat, Fin 3), (2, NaN), (3, Fin 5)] 1 = Inr (Fin 5)
   \<and> kth_largest (map nan_to_num (map snd [(1::nat, Fin 3), (2, NaN), (3, Fin 5)])) (nat 1) (Fin 5)"
proof -
  have e: "current_max 1 [(1::nat, Fin 3), (2, NaN), (3, Fin 5)] 1 = Inr (Fin 5)"
    by (simp add: current_max_def np_partition_def py_index_def Let_def)
  show ?thesis
    using current_max_kth_largest[of "[(1::nat, Fin 3), (2, NaN), (3, Fin 5)]" 1] e
    by simp
qed

text \<open>
  The claim as stated fails: with more requested than explored, \<open>np.partition\<close>
  raises ValueError; an infinite outcome is not kept but replaced by a finite double, so
  that an outcome of negative infinity ranks above a NaN.
\<close>

theorem current_max_counterexample:
  "current_max 1 [(1::nat, Fin 3)] 2 = Inl ValueError
   \<and> current_max 1 [(1::nat, PInf)] 1 = Inr (Fin DBL_MAX)
   \<and> current_max 1 [(1::nat, NInf), (2, NaN)] 1 = Inr (Fin (- DBL_MAX))"
  by (simp add: current_max_def np_partition_def py_index_def Let_def DBL_MAX_def)

text \<open>The ValueError is raised whenever more values are requested than were explored.\<close>

lemma current_max_out_of_range:
  assumes "explored \<noteq> []" and "int (length explored) < k"
  shows "current_max 1 explored k = Inl ValueError"
  using assms by (simp add: current_max_def np_partition_def Let_def)

section \<open>Temperature-based rescaling\<close>

lemma scale_loop_type_error:
  "\<exists>e \<in> set ds. fst (snd e) \<noteq> [] \<Longrightarrow> scale_loop ds g temp d = Inl TypeError"
  by (induction ds g temp d rule: scale_loop.induct) (auto simp: calc_decay_def)

text \<open>
  Claim C9 does not hold of the code. \<open>max\<close> returns a heap entry, the tuple
  \<open>(score, item)\<close>, and \<open>_scale_heaps\<close> passes that tuple to \<open>_calc_decay\<close>
  as \<open>local_max\<close>; subtracting it from a float raises TypeError. So whenever some
  cluster's heap is non-empty, \<open>_scale_heaps\<close> raises and shrinks nothing.
\<close>

theorem scale_heaps_type_error:
  assumes "(cid, heap, heap_size) \<in> set d_cid_heap" and "heap \<noteq> []"
  shows "scale_heaps d_cid_heap pred_global_max t ti tf = Inl TypeError"
  using assms scale_loop_type_error[of d_cid_heap] by (force simp: scale_heaps_def)

theorem scale_heaps_type_error_witness:
  "(0, [(Fin 1, 7::nat)], 1) \<in> set [(0::int, [(Fin 1, 7::nat)], 1::int)]
   \<and> [(Fin 1, 7::nat)] \<noteq> []
   \<and> scale_heaps [(0, [(Fin 1, 7::nat)], 1)] 1 0 1 1 = Inl TypeError"
  using scale_heaps_type_error[of 0 "[(Fin 1, 7::nat)]" 1 "[(0, [(Fin 1, 7::nat)], 1)]" 1 0 1 1]
  by simp

text \<open>
  The key of \<open>max\<close> maps an infinite score to \<open>-1\<close> instead of skipping it, so an
  infinite score is chosen when every finite score is below \<open>-1\<close>.
\<close>

lemma max_by_key_infinite:
  "max_by_key (Fin (- 5), 1::nat) [(PInf, 2)] = (PInf, 2)"
  by (simp add: score_key_def)

section \<open>The round-robin extraction\<close>

lemma heappop_in: "h \<noteq> [] \<Longrightarrow> fst (heappop h) \<in> set h"
  by (metis mset_heappop set_mset_mset union_single_eq_member)

lemma heappop_subset: "h \<noteq> [] \<Longrightarrow> set (snd (heappop h)) \<subseteq> set h"
  by (metis mset_heappop set_mset_mset set_mset_add_mset_insert subset_insertI)

lemma rr_loop_partial_aux:
  assumes "rr_loop clusters order n heap bsize = Some y"
  shows "\<forall>r. y = Inr r \<longrightarrow>
      take (length heap) r = heap
      \<and> (int (length heap) \<le> bsize \<longrightarrow> int (length r) = bsize)
      \<and> (\<forall>x\<in>snd ` set r. x \<in> snd ` set heap \<or> (\<exists>k. x \<in> snd ` set (clusters k)))"
proof (rule rr_loop.raw_induct[where P = "\<lambda>clusters order n heap bsize y. \<forall>r. y = Inr r \<longrightarrow>
      take (length heap) r = heap
      \<and> (int (length heap) \<le> bsize \<longrightarrow> int (length r) = bsize)
      \<and> (\<forall>x\<in>snd ` set r. x \<in> snd ` set heap \<or> (\<exists>k. x \<in> snd ` set (clusters k)))", OF _ assms],
    goal_cases)
  case (1 rr clusters order n heap bsize y)
  note IH = "1"(1) and body = "1"(2)
  show ?case
  proof (intro allI impI)
    fix r assume y: "y = Inr r"
    show "take (length heap) r = heap
      \<and> (int (length heap) \<le> bsize \<longrightarrow> int (length r) = bsize)
      \<and> (\<forall>x\<in>snd ` set r. x \<in> snd ` set heap \<or> (\<exists>k. x \<in> snd ` set (clusters k)))"
    proof (cases "int (length heap) < bsize")
      case False
      from body have "Some (Inr heap) = Some y" by (simp only: False if_False)
      then have "r = heap" using y by simp
      then show ?thesis using False by auto
    next
      case lt: True
      from body have b1:
        "(if order = [] then Some (Inl StopIteration)
          else let cid = order ! (n mod length order)
               in if 0 < length (clusters cid)
                  then let popped = heappop (clusters cid)
                       in rr (clusters(cid := snd popped)) order (n + 1)
                            (heap @ [(fl_neg (fst (fst popped)), snd (fst popped))]) bsize
                  else rr clusters order (n + 1) heap bsize) = Some y"
        by (simp only: lt if_True)
      have ne: "order \<noteq> []"
      proof
        assume "order = []"
        with b1 have "Some (Inl StopIteration) = Some y" by (simp only: simp_thms if_True)
        then show False using y by simp
      qed
      let ?cid = "order ! (n mod length order)"
      from b1 have b2:
        "(if 0 < length (clusters ?cid)
          then rr (clusters(?cid := snd (heappop (clusters ?cid)))) order (n + 1)
                 (heap @ [(fl_neg (fst (fst (heappop (clusters ?cid)))),
                           snd (fst (heappop (clusters ?cid))))]) bsize
          else rr clusters order (n + 1) heap bsize) = Some y"
        by (simp only: ne if_False Let_def)
      show ?thesis
      proof (cases "clusters ?cid = []")
        case True
        then have "\<not> 0 < length (clusters ?cid)" by simp
        with b2 have "rr clusters order (n + 1) heap bsize = Some y"
          by (simp only: if_False)
        from IH[OF this] y show ?thesis by blast
      next
        case False
        let ?p = "heappop (clusters ?cid)"
        let ?item = "(fl_neg (fst (fst ?p)), snd (fst ?p))"
        have "0 < length (clusters ?cid)" using False by simp
        with b2 have "rr (clusters(?cid := snd ?p)) order (n + 1) (heap @ [?item]) bsize = Some y"
          by (simp only: if_True)
        from IH[OF this] y have
          t: "take (length (heap @ [?item])) r = heap @ [?item]" and
          l: "int (length (heap @ [?item])) \<le> bsize \<longrightarrow> int (length r) = bsize" and
          s: "\<forall>x\<in>snd ` set r. x \<in> snd ` set (heap @ [?item])
                \<or> (\<exists>k. x \<in> snd ` set ((clusters(?cid := snd ?p)) k))"
          by blast+
        have t': "take (length heap) r = heap"
        proof -
          have "take (length heap) r = take (length heap) (take (length (heap @ [?item])) r)"
            by (simp add: min_def)
          also have "\<dots> = take (length heap) (heap @ [?item])" by (simp only: t)
          also have "\<dots> = heap" by simp
          finally show ?thesis .
        qed
        have l': "int (length r) = bsize" using l lt by simp
        have i1: "fst ?p \<in> set (clusters ?cid)" by (rule heappop_in[OF False])
        have i2: "set (snd ?p) \<subseteq> set (clusters ?cid)" by (rule heappop_subset[OF False])
        have s': "x \<in> snd ` set heap \<or> (\<exists>k. x \<in> snd ` set (clusters k))"
          if x: "x \<in> snd ` set r" for x
        proof -
          from s x have "x \<in> snd ` set (heap @ [?item])
                \<or> (\<exists>k. x \<in> snd ` set ((clusters(?cid := snd ?p)) k))"
            by (rule bspec)
          then consider (a) "x \<in> snd ` set heap" | (b) "x = snd (fst ?p)"
            | (c) k where "x \<in> snd ` set ((clusters(?cid := snd ?p)) k)"
            by auto
          then show ?thesis
          proof cases
            case a
            then show ?thesis by (rule disjI1)
          next
            case b
            then have "x \<in> snd ` set (clusters ?cid)" using i1 by (simp only: image_eqI)
            then show ?thesis by blast
          next
            case c
            show ?thesis
            proof (cases "k = ?cid")
              case True
              then have "x \<in> snd ` set (snd ?p)" using c by simp
              then have "x \<in> snd ` set (clusters ?cid)" using i2 by blast
              then show ?thesis by blast
            next
              case False
              then have "x \<in> snd ` set (clusters k)" using c by simp
              then show ?thesis by blast
            qed
          qed
        qed
        show ?thesis
        proof (intro conjI impI ballI)
          show "take (length heap) r = heap" by (rule t')
          show "int (length r) = bsize" by (rule l')
          show "x \<in> snd ` set heap \<or> (\<exists>k. x \<in> snd ` set (clusters k))"
            if "x \<in> snd ` set r" for x
            using that by (rule s')
        qed
      qed
    qed
  qed
qed

lemma rr_loop_partial:
  assumes "rr_loop clusters order n heap bsize = Some (Inr r)"
  shows "take (length heap) r = heap"
    and "int (length heap) \<le> bsize \<Longrightarrow> int (length r) = bsize"
    and "\<forall>x\<in>snd ` set r. x \<in> snd ` set heap \<or> (\<exists>k. x \<in> snd ` set (clusters k))"
  using rr_loop_partial_aux[OF assms] by blast+

lemma sum_list_fun_upd:
  "distinct xs \<Longrightarrow> c \<in> set xs \<Longrightarrow>
   sum_list (map (\<lambda>k. length ((f(c := v)) k)) xs) + length (f c)
     = sum_list (map (\<lambda>k. length (f k)) xs) + length v"
proof (induction xs)
  case Nil
  then show ?case by simp
next
  case (Cons x xs)
  show ?case
  proof (cases "x = c")
    case True
    then have "c \<notin> set xs" using Cons.prems by simp
    then have "map (\<lambda>k. length ((f(c := v)) k)) xs = map (\<lambda>k. length (f k)) xs"
      by (intro map_cong) auto
    then have "sum_list (map (\<lambda>k. length ((f(c := v)) k)) xs)
                 = sum_list (map (\<lambda>k. length (f k)) xs)"
      by (rule arg_cong)
    then show ?thesis using True by simp
  next
    case False
    then show ?thesis using Cons by simp
  qed
qed

lemma sum_list_pos_ex: "0 < sum_list (map f xs) \<Longrightarrow> \<exists>x\<in>set xs. 0 < (f x :: nat)"
  by (induction xs) auto

lemma rr_loop_skip:
  assumes "order \<noteq> []" and "int (length heap) < bsize"
  shows "\<forall>j'<j. clusters (order ! ((n + j') mod length order)) = [] \<Longrightarrow>
         rr_loop clusters order n heap bsize = rr_loop clusters order (n + j) heap bsize"
proof (induction j arbitrary: n)
  case 0
  then show ?case by simp
next
  case (Suc j)
  have e: "clusters (order ! (n mod length order)) = []" using Suc.prems by force
  have "\<forall>j'<j. clusters (order ! ((n + 1 + j') mod length order)) = []"
  proof (intro allI impI)
    fix j' assume "j' < j"
    then have "Suc j' < Suc j" by simp
    with Suc.prems have "clusters (order ! ((n + Suc j') mod length order)) = []"
      by blast
    moreover have "n + 1 + j' = n + Suc j'" by simp
    ultimately show "clusters (order ! ((n + 1 + j') mod length order)) = []"
      by (simp only:)
  qed
  from Suc.IH[OF this] have "rr_loop clusters order (n + 1) heap bsize
                               = rr_loop clusters order (n + Suc j) heap bsize"
    by simp
  moreover have "rr_loop clusters order n heap bsize = rr_loop clusters order (n + 1) heap bsize"
    using assms e by (subst rr_loop.simps) simp
  ultimately show ?case by simp
qed

lemma rr_loop_total:
  assumes "distinct order"
  shows "int (length heap) \<le> bsize \<Longrightarrow>
         bsize - int (length heap) \<le> int (sum_list (map (\<lambda>k. length (clusters k)) order)) \<Longrightarrow>
         \<exists>r. rr_loop clusters order n heap bsize = Some (Inr r)"
proof (induction "nat (bsize - int (length heap))" arbitrary: clusters n heap)
  case 0
  then have "\<not> int (length heap) < bsize" by simp
  then show ?case by (subst rr_loop.simps) simp
next
  case (Suc need)
  let ?L = "length order"
  have lt: "int (length heap) < bsize" using Suc.hyps(2) by simp
  have "0 < sum_list (map (\<lambda>k. length (clusters k)) order)" using Suc.prems(2) lt by simp
  then obtain k where k: "k \<in> set order" "clusters k \<noteq> []"
    using sum_list_pos_ex[of "\<lambda>k. length (clusters k)" order] by auto
  then have ne: "order \<noteq> []" by auto
  from k obtain i where i: "i < ?L" "order ! i = k" by (auto simp: in_set_conv_nth)
  obtain L' where L': "?L = Suc L'" using i(1) by (cases ?L) auto
  have "n + (i + L' * n) = i + Suc L' * n" by simp
  moreover have "(i + Suc L' * n) mod Suc L' = i"
  proof -
    have "(i + Suc L' * n) mod Suc L' = i mod Suc L'" by (rule mod_mult_self2)
    also have "\<dots> = i" using i(1) L' by simp
    finally show ?thesis .
  qed
  ultimately have "(n + (i + L' * n)) mod ?L = i" unfolding L' by (simp only:)
  then have "clusters (order ! ((n + (i + L' * n)) mod ?L)) \<noteq> []"
    using i(2) k(2) by simp
  then have ex: "\<exists>j. clusters (order ! ((n + j) mod ?L)) \<noteq> []" by (rule exI)
  define j where "j = (LEAST j. clusters (order ! ((n + j) mod ?L)) \<noteq> [])"
  have jne: "clusters (order ! ((n + j) mod ?L)) \<noteq> []"
    unfolding j_def using ex by (rule LeastI_ex)
  have jmin: "\<forall>j'<j. clusters (order ! ((n + j') mod ?L)) = []"
    unfolding j_def using not_less_Least by blast
  let ?cid = "order ! ((n + j) mod ?L)"
  let ?p = "heappop (clusters ?cid)"
  let ?item = "(fl_neg (fst (fst ?p)), snd (fst ?p))"
  let ?cl = "clusters(?cid := snd ?p)"
  have skip: "rr_loop clusters order n heap bsize = rr_loop clusters order (n + j) heap bsize"
    using rr_loop_skip[OF ne lt jmin] .
  have step: "rr_loop clusters order (n + j) heap bsize
                = rr_loop ?cl order (n + j + 1) (heap @ [?item]) bsize"
    using lt ne jne by (subst rr_loop.simps) (simp add: Let_def)
  have cin: "?cid \<in> set order" using ne by simp
  have "sum_list (map (\<lambda>k. length (?cl k)) order) + length (clusters ?cid)
          = sum_list (map (\<lambda>k. length (clusters k)) order) + length (snd ?p)"
    using sum_list_fun_upd[OF assms cin] .
  moreover have "length (snd ?p) = length (clusters ?cid) - 1" by (rule length_heappop[OF jne])
  moreover have "0 < length (clusters ?cid)" using jne by simp
  ultimately have pop: "sum_list (map (\<lambda>k. length (?cl k)) order) + 1
                    = sum_list (map (\<lambda>k. length (clusters k)) order)"
    by linarith
  have a: "need = nat (bsize - int (length (heap @ [?item])))" using Suc.hyps(2) by simp
  have b: "int (length (heap @ [?item])) \<le> bsize" using lt by simp
  have c: "bsize - int (length (heap @ [?item]))
             \<le> int (sum_list (map (\<lambda>k. length (?cl k)) order))"
    using Suc.prems(2) pop by simp
  from Suc.hyps(1)[OF a b c] obtain r where
    "rr_loop ?cl order (n + j + 1) (heap @ [?item]) bsize = Some (Inr r)" by blast
  then show ?case by (simp only: skip step) blast
qed

lemma rr_loop_sweep:
  assumes "distinct order"
  shows "n + j \<le> length order \<Longrightarrow>
         (\<forall>i. n \<le> i \<and> i < n + j \<longrightarrow> clusters (order ! i) \<noteq> []) \<Longrightarrow>
         int (length heap) + int j \<le> bsize \<Longrightarrow>
         rr_loop clusters order n heap bsize = Some (Inr r) \<Longrightarrow>
         \<forall>i<j. r ! (length heap + i) = popped_entry (clusters (order ! (n + i)))"
proof (induction j arbitrary: clusters n heap)
  case 0
  then show ?case by simp
next
  case (Suc j)
  let ?L = "length order"
  have nL: "n < ?L" using Suc.prems(1) by simp
  then have ne: "order \<noteq> []" by auto
  have md: "n mod ?L = n" using nL by simp
  let ?cid = "order ! n"
  have cne: "clusters ?cid \<noteq> []" using Suc.prems(2) by simp
  have lt: "int (length heap) < bsize" using Suc.prems(3) by simp
  let ?p = "heappop (clusters ?cid)"
  let ?item = "(fl_neg (fst (fst ?p)), snd (fst ?p))"
  let ?cl = "clusters(?cid := snd ?p)"
  have "rr_loop clusters order n heap bsize
          = rr_loop ?cl order (n + 1) (heap @ [?item]) bsize"
    using lt ne cne md by (subst rr_loop.simps) (simp add: Let_def)
  then have run: "rr_loop ?cl order (n + 1) (heap @ [?item]) bsize = Some (Inr r)"
    using Suc.prems(4) by simp
  have same: "?cl (order ! i) = clusters (order ! i)" if "n < i" "i < ?L" for i
  proof -
    have "order ! i \<noteq> order ! n"
      using that nL assms by (simp add: nth_eq_iff_index_eq)
    then show ?thesis by simp
  qed
  have a: "n + 1 + j \<le> ?L" using Suc.prems(1) by simp
  have b: "\<forall>i. n + 1 \<le> i \<and> i < n + 1 + j \<longrightarrow> ?cl (order ! i) \<noteq> []"
  proof (intro allI impI)
    fix i assume i: "n + 1 \<le> i \<and> i < n + 1 + j"
    then have "?cl (order ! i) = clusters (order ! i)" using same[of i] a by simp
    moreover have "clusters (order ! i) \<noteq> []" using Suc.prems(2) i by simp
    ultimately show "?cl (order ! i) \<noteq> []" by simp
  qed
  have c: "int (length (heap @ [?item])) + int j \<le> bsize" using Suc.prems(3) by simp
  from Suc.IH[OF a b c run]
  have ih: "\<forall>i<j. r ! (length (heap @ [?item]) + i) = popped_entry (?cl (order ! (n + 1 + i)))" .
  have first: "r ! length heap = ?item"
  proof -
    have "take (length (heap @ [?item])) r = heap @ [?item]"
      using rr_loop_partial(1)[OF run] .
    then have "take (length (heap @ [?item])) r ! length heap = (heap @ [?item]) ! length heap"
      by (rule arg_cong)
    then show ?thesis by simp
  qed
  show ?case
  proof (intro allI impI)
    fix i assume i: "i < Suc j"
    show "r ! (length heap + i) = popped_entry (clusters (order ! (n + i)))"
    proof (cases i)
      case 0
      then show ?thesis using first by (simp add: popped_entry_def)
    next
      case (Suc i')
      then have i': "i' < j" using i by simp
      have "r ! (length (heap @ [?item]) + i') = popped_entry (?cl (order ! (n + 1 + i')))"
        using ih i' by blast
      moreover have "?cl (order ! (n + 1 + i')) = clusters (order ! (n + 1 + i'))"
        using same[of "n + 1 + i'"] a i' by simp
      ultimately show ?thesis using Suc by simp
    qed
  qed
qed

lemma distinct_np_unique: "distinct (np_unique cids)"
  by (simp add: np_unique_def)

lemma mset_cluster_order [simp]: "mset (cluster_order keys clusters) = mset keys"
  by (simp add: cluster_order_def)

lemma length_cluster_order [simp]: "length (cluster_order keys clusters) = length keys"
  by (simp add: cluster_order_def)

lemma distinct_cluster_order [simp]: "distinct (cluster_order keys clusters) = distinct keys"
  by (simp add: cluster_order_def)

lemma sum_cluster_order:
  "sum_list (map f (cluster_order keys clusters)) = sum_list (map (f :: int \<Rightarrow> nat) keys)"
proof -
  have "mset (map f (cluster_order keys clusters)) = mset (map f keys)"
    by (simp only: mset_map mset_cluster_order)
  then show ?thesis by (metis sum_mset_sum_list)
qed

lemma cluster_order_descending:
  assumes "i \<le> j" and "j < length keys"
  shows "length (clusters (cluster_order keys clusters ! j))
           \<le> length (clusters (cluster_order keys clusters ! i))"
proof -
  let ?f = "\<lambda>k. - int (length (clusters k))"
  let ?o = "cluster_order keys clusters"
  have "sorted (map ?f ?o)" unfolding cluster_order_def by (rule sorted_sort_key)
  moreover have "j < length (map ?f ?o)" using assms(2) by simp
  ultimately have "map ?f ?o ! i \<le> map ?f ?o ! j"
    using assms(1) by (metis sorted_nth_mono)
  then show ?thesis using assms by simp
qed

text \<open>
  Claim C5. For clusters with distinct ids whose total population is at least a
  non-negative \<open>batch_size\<close>, the extraction loop returns, with exactly
  \<open>batch_size\<close> entries. The cycle is a permutation of the cluster ids in order of
  descending population, and the first lap collects one entry from each non-empty cluster
  in that order: the \<open>i\<close>-th entry collected is the one popped from the \<open>i\<close>-th
  cluster of the order, for every \<open>i\<close> below the batch size whose cluster is non-empty.
\<close>

theorem round_robin_total:
  assumes "distinct keys" and "0 \<le> bsize"
      and "bsize \<le> int (\<Sum>k\<leftarrow>keys. length (clusters k))"
  shows "\<exists>heap. round_robin keys clusters bsize = Some (Inr heap)
           \<and> int (length heap) = bsize
           \<and> mset (cluster_order keys clusters) = mset keys
           \<and> (\<forall>i j. i \<le> j \<and> j < length keys \<longrightarrow>
                  length (clusters (cluster_order keys clusters ! j))
                    \<le> length (clusters (cluster_order keys clusters ! i)))
           \<and> (\<forall>i. i < nat bsize \<and> i < length keys
                    \<and> clusters (cluster_order keys clusters ! i) \<noteq> [] \<longrightarrow>
                  heap ! i = popped_entry (clusters (cluster_order keys clusters ! i)))"
proof -
  let ?o = "cluster_order keys clusters"
  have d: "distinct ?o" using assms(1) by simp
  have pop: "bsize - int (length ([]::'a entry list))
               \<le> int (sum_list (map (\<lambda>k. length (clusters k)) ?o))"
    using assms(3) by (simp add: sum_cluster_order)
  have le0: "int (length ([]::'a entry list)) \<le> bsize" using assms(2) by simp
  from rr_loop_total[OF d le0 pop] obtain r where
    run: "rr_loop clusters ?o 0 [] bsize = Some (Inr r)" by blast
  have len: "int (length r) = bsize" using rr_loop_partial(2)[OF run le0] .
  have first: "r ! i = popped_entry (clusters (?o ! i))"
    if i: "i < nat bsize" "i < length keys" "clusters (?o ! i) \<noteq> []" for i
  proof -
    have ne: "\<forall>i'. 0 \<le> i' \<and> i' < 0 + Suc i \<longrightarrow> clusters (?o ! i') \<noteq> []"
    proof (intro allI impI)
      fix i' assume "0 \<le> i' \<and> i' < 0 + Suc i"
      then have "i' \<le> i" by simp
      then have "length (clusters (?o ! i)) \<le> length (clusters (?o ! i'))"
        using i(2) by (rule cluster_order_descending)
      then show "clusters (?o ! i') \<noteq> []" using i(3) by auto
    qed
    have a: "0 + Suc i \<le> length ?o" using i(2) by simp
    have c: "int (length ([]::'a entry list)) + int (Suc i) \<le> bsize" using i(1) by simp
    from rr_loop_sweep[OF d a ne c run] have "r ! (length ([]::'a entry list) + i)
        = popped_entry (clusters (?o ! (0 + i)))" by blast
    then show ?thesis by simp
  qed
  show ?thesis
    using run len first cluster_order_descending[of _ _ keys clusters]
    by (intro exI[of _ r]) (simp add: round_robin_def)
qed

theorem round_robin_total_witness:
  "distinct [0::int, 1, 2] \<and> (0::int) \<le> 5
   \<and> (5::int) \<le> int (\<Sum>k\<leftarrow>[0, 1, 2]. length
         ((fill_clusters (zip [1, 2, 1, 0, 1, 2]
            (zip [10::nat, 11, 12, 13, 14, 15] [Fin 1, Fin 2, Fin 3, Fin 4, Fin 5, Fin 6]))
            (\<lambda>cid. [])) k))
   \<and> round_robin [0, 1, 2]
         (fill_clusters (zip [1, 2, 1, 0, 1, 2]
            (zip [10::nat, 11, 12, 13, 14, 15] [Fin 1, Fin 2, Fin 3, Fin 4, Fin 5, Fin 6]))
            (\<lambda>cid. [])) 5
       = Some (Inr [(Fin 5, 14), (Fin 6, 15), (Fin 4, 13), (Fin 3, 12), (Fin 2, 11)])"
proof -
  let ?C = "fill_clusters (zip [1, 2, 1, 0, 1, 2]
            (zip [10::nat, 11, 12, 13, 14, 15] [Fin 1, Fin 2, Fin 3, Fin 4, Fin 5, Fin 6]))
            (\<lambda>cid. [])"
  have p: "(5::int) \<le> int (\<Sum>k\<leftarrow>[0, 1, 2]. length (?C k))"
    by simp
  have e: "round_robin [0, 1, 2] ?C 5
             = Some (Inr [(Fin 5, 14), (Fin 6, 15), (Fin 4, 13), (Fin 3, 12), (Fin 2, 11)])"
    by (simp add: round_robin_def cluster_order_def rr_loop.simps heappop_def heappush_def
          siftup_def siftdown_def siftdown_loop.simps siftup_loop.simps tuple_lt_def fl_eq_def
          Let_def)
  have d: "distinct [0::int, 1, 2]" and z: "(0::int) \<le> 5" by simp_all
  have w: "\<exists>heap. round_robin [0, 1, 2] ?C 5 = Some (Inr heap) \<and> int (length heap) = 5"
    using round_robin_total[OF d z p] by blast
  show ?thesis using d z p e w by simp
qed

section \<open>Clustered and hybrid selection\<close>

text \<open>
  Claim C4, as amended. In \<open>clustered_batch\<close> the superset is the plain top-k of
  capacity \<open>cluster_superset\<close> over the pool without the explored items, whatever the
  batch size: for distinct items, one utility per item and a non-negative
  \<open>cluster_superset\<close> it has \<open>min(cluster_superset, |pool \ explored|)\<close> entries,
  none of them explored. With a non-empty cluster type and no configured superset size,
  the constructor sets \<open>cluster_superset\<close> to ten times the first schedule entry.
\<close>

theorem superset_plain_top_k:
  assumes "distinct xs" and "length U = length xs"
      and "cluster_superset a = Some cs" and "0 \<le> cs"
  shows "superset_of a xs U explored = Inr (top_k xs U cs explored)
         \<and> snd ` set (top_k xs U cs explored) \<inter> fst ` set explored = {}
         \<and> length (top_k xs U cs explored) = min (nat cs) (card (set xs - fst ` set explored))
         \<and> (ctype \<noteq> [] \<longrightarrow>
               init_cluster_superset (Some ctype) None (b # bss) = Inr (Some (10 * b)))"
proof -
  have "superset_of a xs U explored = Inr (top_k xs U cs explored)"
    using assms(3) by (simp add: superset_of_def)
  moreover have "ctype \<noteq> [] \<longrightarrow>
               init_cluster_superset (Some ctype) None (b # bss) = Inr (Some (10 * b))"
    by (simp add: init_cluster_superset_def py_index_def)
  ultimately show ?thesis
    using top_k_items_count[OF assms(1,2,4), of explored] by simp
qed

theorem superset_plain_top_k_witness:
  "distinct [1::nat, 2, 3] \<and> length [Fin 1, Fin 2, Fin 3] = length [1::nat, 2, 3]
   \<and> cluster_superset \<lparr> size_a = 3, init_size = 1, batch_sizes = [2], dim = 1,
          cluster_type = Some ''objs'', cluster_superset = Some 1, epsilon = 0,
          temp_i = None, temp_f = None \<rparr> = Some 1
   \<and> (0::int) \<le> 1
   \<and> superset_of \<lparr> size_a = 3, init_size = 1, batch_sizes = [2], dim = 1,
          cluster_type = Some ''objs'', cluster_superset = Some 1, epsilon = 0,
          temp_i = None, temp_f = None \<rparr> [1::nat, 2, 3] [Fin 1, Fin 2, Fin 3]
          ([]::(nat \<times> pyfloat) list)
        = Inr (top_k [1::nat, 2, 3] [Fin 1, Fin 2, Fin 3] 1 ([]::(nat \<times> pyfloat) list))
   \<and> length (top_k [1::nat, 2, 3] [Fin 1, Fin 2, Fin 3] 1 ([]::(nat \<times> pyfloat) list)) = 1
   \<and> init_cluster_superset (Some ''objs'') None [2] = Inr (Some 20)"
  using superset_plain_top_k[of "[1::nat, 2, 3]" "[Fin 1, Fin 2, Fin 3]"
          "\<lparr> size_a = 3, init_size = 1, batch_sizes = [2], dim = 1,
          cluster_type = Some ''objs'', cluster_superset = Some 1, epsilon = 0,
          temp_i = None, temp_f = None \<rparr>" 1 "[]::(nat \<times> pyfloat) list" "''objs''" 2 "[]"]
  by simp

text \<open>
  The claim as stated fails: with \<open>cluster_superset = 1\<close> and a batch size of
  \<open>2\<close> the superset has one entry, where a top-k of size
  \<open>max(cluster_superset, batch_size)\<close> has two.
\<close>

theorem superset_counterexample:
  "superset_of \<lparr> size_a = 3, init_size = 1, batch_sizes = [2], dim = 1,
          cluster_type = Some ''objs'', cluster_superset = Some 1, epsilon = 0,
          temp_i = None, temp_f = None \<rparr> [1::nat, 2, 3] [Fin 1, Fin 2, Fin 3]
          ([]::(nat \<times> pyfloat) list)
     = Inr [(Fin 3, 3)]
   \<and> top_k [1::nat, 2, 3] [Fin 1, Fin 2, Fin 3] (max 1 2) ([]::(nat \<times> pyfloat) list)
     = [(Fin 2, 2), (Fin 3, 3)]"
  by (simp add: superset_of_def top_k_def push_bounded_def heappush_def heappushpop_def
        siftup_def siftdown_def siftdown_loop.simps siftup_loop.simps tuple_lt_def fl_eq_def
        dict_contains_def Let_def)

text \<open>
  The default of the constructor also applies to a configured size of \<open>0\<close>, which
  \<open>or\<close> treats like \<open>None\<close>.
\<close>

lemma init_cluster_superset_unset:
  assumes "ctype \<noteq> []" and "csuper = None \<or> csuper = Some 0"
  shows "init_cluster_superset (Some ctype) csuper (b # bss) = Inr (Some (10 * b))"
  using assms by (auto simp: init_cluster_superset_def py_index_def)

lemma fill_clusters_items:
  "x \<in> snd ` set (fill_clusters zs clusters k) \<Longrightarrow>
   x \<in> snd ` set (clusters k) \<or> x \<in> (\<lambda>z. fst (snd z)) ` set zs"
proof (induction zs clusters rule: fill_clusters.induct)
  case (1 clusters)
  then show ?case by simp
next
  case (2 cid y u rest clusters)
  let ?cl = "clusters(cid := heappush (clusters cid) (fl_neg u, y))"
  from "2.IH"[OF "2.prems"[unfolded fill_clusters.simps]]
  consider (a) "x \<in> snd ` set (?cl k)" | (b) "x \<in> (\<lambda>z. fst (snd z)) ` set rest" by blast
  then show ?case
  proof cases
    case a
    show ?thesis
    proof (cases "k = cid")
      case True
      then have "x \<in> snd ` insert (fl_neg u, y) (set (clusters cid))" using a by simp
      then have "x = y \<or> x \<in> snd ` set (clusters cid)" by auto
      then show ?thesis using True by auto
    next
      case False
      then show ?thesis using a by simp
    qed
  next
    case b
    then show ?thesis by auto
  qed
qed

lemma superset_of_items:
  assumes "superset_of a xs U explored = Inr superset"
  shows "snd ` set superset \<subseteq> {x \<in> set xs. \<not> dict_contains explored x}"
proof (cases "cluster_superset a")
  case None
  then have "superset = []" using assms by (simp add: superset_of_def split: if_splits)
  then show ?thesis by simp
next
  case (Some cs)
  then have "superset = top_k xs U cs explored" using assms by (simp add: superset_of_def)
  then show ?thesis using top_k_items by simp
qed

lemma clustered_batch_result:
  assumes "clustered_batch a ext xs U bsize explored = Some (Inr r)"
  shows "0 \<le> bsize \<Longrightarrow> int (length r) = bsize"
    and "snd ` set r \<subseteq> {x \<in> set xs. \<not> dict_contains explored x}"
proof -
  from assms obtain superset where sup: "superset_of a xs U explored = Inr superset"
    by (cases "superset_of a xs U explored") (auto simp: clustered_batch_def)
  let ?sxs = "map snd superset"
  let ?sus = "map fst superset"
  let ?ids = "if cluster_type a = Some ''fps'' then cluster_feats ext ?sxs bsize
              else if ?sxs = [] then Inl ValueError else cluster_objs ext ?sxs bsize"
  from assms sup obtain cluster_ids where ids: "?ids = Inr cluster_ids"
    by (cases ?ids) (auto simp: clustered_batch_def Let_def)
  let ?zs = "zip cluster_ids (zip ?sxs ?sus)"
  let ?cl = "fill_clusters ?zs (\<lambda>cid. [])"
  have "clustered_batch a ext xs U bsize explored = round_robin (np_unique cluster_ids) ?cl bsize"
    using sup ids by (simp add: clustered_batch_def Let_def)
  then have run: "rr_loop ?cl (cluster_order (np_unique cluster_ids) ?cl) 0 [] bsize = Some (Inr r)"
    using assms by (simp add: round_robin_def)
  show "int (length r) = bsize" if "0 \<le> bsize"
    using rr_loop_partial(2)[OF run] that by simp
  show "snd ` set r \<subseteq> {x \<in> set xs. \<not> dict_contains explored x}"
  proof
    fix x assume x: "x \<in> snd ` set r"
    from rr_loop_partial(3)[OF run] x
    have "x \<in> snd ` set ([]::'a entry list) \<or> (\<exists>k. x \<in> snd ` set (?cl k))" by (rule bspec)
    then obtain k where "x \<in> snd ` set (?cl k)" by auto
    from fill_clusters_items[OF this]
    have "x \<in> (\<lambda>z. fst (snd z)) ` set ?zs" by simp
    then obtain z where z: "z \<in> set ?zs" "x = fst (snd z)" by blast
    then have "snd z \<in> set (zip ?sxs ?sus)" by (metis in_set_zipE prod.collapse)
    then have "fst (snd z) \<in> set ?sxs" by (metis in_set_zipE prod.collapse)
    then have "x \<in> snd ` set superset" using z(2) by simp
    then show "x \<in> {x \<in> set xs. \<not> dict_contains explored x}"
      using superset_of_items[OF sup] by blast
  qed
qed

lemma dict_contains_update:
  "dict_contains (AList.update k v d) x \<longleftrightarrow> x = k \<or> dict_contains d x"
  by (simp add: dict_contains_def update_conv')

lemma dict_contains_dont_acquire:
  "dict_contains (dont_acquire_of explored heap) x
     \<longleftrightarrow> dict_contains explored x \<or> x \<in> snd ` set heap"
  unfolding dont_acquire_of_def
proof (induction heap arbitrary: explored)
  case Nil
  then show ?case by simp
next
  case (Cons e heap)
  obtain u y where e: "e = (u, y)" by (cases e) auto
  show ?case using Cons[of "AList.update y u explored"] e
    by (auto simp: dict_contains_update)
qed

text \<open>
  Claim C6. When the hybrid selection returns a batch for a non-negative batch size, the
  batch is the feature-space sub-batch followed by the objective-space sub-batch; the
  objective-space sub-batch has \<open>ceil(batch_size/2)\<close> entries and the feature-space
  sub-batch the remainder; and no item of the feature-space sub-batch is an item of the
  objective-space sub-batch or a key of the caller's explored dict.
\<close>

theorem cluster_both_disjoint:
  assumes "cluster_both a ext xs U bsize explored = Some (Inr heap)" and "0 \<le> bsize"
  shows "\<exists>heap_objs heap_fps.
           heap = heap_fps @ heap_objs
           \<and> clustered_batch (a\<lparr>cluster_type := Some ''objs''\<rparr>) ext xs U
                \<lceil>real_of_int bsize / 2\<rceil> explored = Some (Inr heap_objs)
           \<and> clustered_batch (a\<lparr>cluster_type := Some ''fps''\<rparr>) ext xs U
                (bsize - \<lceil>real_of_int bsize / 2\<rceil>) (dont_acquire_of explored heap_objs)
                = Some (Inr heap_fps)
           \<and> int (length heap_objs) = \<lceil>real_of_int bsize / 2\<rceil>
           \<and> int (length heap_fps) = bsize - \<lceil>real_of_int bsize / 2\<rceil>
           \<and> snd ` set heap_fps \<inter> snd ` set heap_objs = {}
           \<and> snd ` set heap_fps \<inter> fst ` set explored = {}"
proof -
  let ?bo = "\<lceil>real_of_int bsize / 2\<rceil>"
  let ?bf = "bsize - ?bo"
  let ?ao = "a\<lparr>cluster_type := Some ''objs''\<rparr>"
  let ?af = "a\<lparr>cluster_type := Some ''fps''\<rparr>"
  from assms(1) obtain heap_objs where
    o: "clustered_batch ?ao ext xs U ?bo explored = Some (Inr heap_objs)"
    by (auto simp: cluster_both_def Let_def split: option.splits sum.splits)
  from assms(1) o obtain heap_fps where
    f: "clustered_batch ?af ext xs U ?bf (dont_acquire_of explored heap_objs) = Some (Inr heap_fps)"
    and h: "heap = heap_fps @ heap_objs"
    by (auto simp: cluster_both_def Let_def split: option.splits sum.splits)
  have bo: "0 \<le> ?bo" using assms(2) by simp
  have bf: "0 \<le> ?bf" using assms(2) by linarith
  have lo: "int (length heap_objs) = ?bo" using clustered_batch_result(1)[OF o bo] .
  have lf: "int (length heap_fps) = ?bf" using clustered_batch_result(1)[OF f bf] .
  have "snd ` set heap_fps
          \<subseteq> {x \<in> set xs. \<not> dict_contains (dont_acquire_of explored heap_objs) x}"
    using clustered_batch_result(2)[OF f] .
  then have d: "\<forall>x\<in>snd ` set heap_fps. \<not> dict_contains explored x \<and> x \<notin> snd ` set heap_objs"
    by (auto simp: dict_contains_dont_acquire)
  have d1: "snd ` set heap_fps \<inter> snd ` set heap_objs = {}" using d by blast
  have d2: "snd ` set heap_fps \<inter> fst ` set explored = {}"
    using d by (auto simp: dict_contains_iff)
  show ?thesis using h o f lo lf d1 d2 by blast
qed

theorem cluster_both_disjoint_witness:
  "cluster_both
     \<lparr> size_a = 5, init_size = 1, batch_sizes = [2], dim = 1, cluster_type = Some ''both'',
       cluster_superset = Some 4, epsilon = 0, temp_i = None, temp_f = None \<rparr>
     \<lparr> metrics_calc = (\<lambda>cmax n. [Fin 1, Fin 2, Fin 3, Fin 4, Fin 5]),
       cluster_objs = (\<lambda>xs n. Inr (map (\<lambda>x. 0) xs)),
       cluster_feats = (\<lambda>xs n. Inr (map (\<lambda>x. 0) xs)) \<rparr>
     [1::nat, 2, 3, 4, 5] [Fin 1, Fin 2, Fin 3, Fin 4, Fin 5] 2 [(5, Fin 9)]
     = Some (Inr [(Fin 3, 3), (Fin 4, 4)])
   \<and> (0::int) \<le> 2
   \<and> (\<exists>heap_objs heap_fps.
         [(Fin 3, 3::nat), (Fin 4, 4)] = heap_fps @ heap_objs
         \<and> int (length heap_objs) = \<lceil>real_of_int 2 / 2\<rceil>
         \<and> int (length heap_fps) = 2 - \<lceil>real_of_int 2 / 2\<rceil>
         \<and> snd ` set heap_fps \<inter> snd ` set heap_objs = {}
         \<and> snd ` set heap_fps \<inter> fst ` set [(5::nat, Fin 9)] = {})"
proof -
  let ?A = "\<lparr> size_a = 5, init_size = 1, batch_sizes = [2], dim = 1,
       cluster_type = Some ''both'',
       cluster_superset = Some 4, epsilon = 0, temp_i = None, temp_f = None \<rparr>"
  let ?E = "\<lparr> metrics_calc = (\<lambda>cmax n. [Fin 1, Fin 2, Fin 3, Fin 4, Fin 5]),
       cluster_objs = (\<lambda>xs n. Inr (map (\<lambda>x. 0) xs)),
       cluster_feats = (\<lambda>xs n. Inr (map (\<lambda>x. 0) xs)) \<rparr> :: nat collaborators"
  have e: "cluster_both ?A ?E [1::nat, 2, 3, 4, 5] [Fin 1, Fin 2, Fin 3, Fin 4, Fin 5] 2
             [(5, Fin 9)] = Some (Inr [(Fin 3, 3), (Fin 4, 4)])"
    by (simp add: cluster_both_def clustered_batch_def superset_of_def top_k_def
          push_bounded_def dont_acquire_of_def np_unique_def
          round_robin_def cluster_order_def rr_loop.simps heappop_def heappush_def
          heappushpop_def siftup_def siftdown_def siftdown_loop.simps siftup_loop.simps
          tuple_lt_def fl_eq_def dict_contains_def Let_def)
  have z: "(0::int) \<le> 2" by simp
  from cluster_both_disjoint[OF e z]
  have "\<exists>heap_objs heap_fps.
         [(Fin 3, 3::nat), (Fin 4, 4)] = heap_fps @ heap_objs
         \<and> int (length heap_objs) = \<lceil>real_of_int 2 / 2\<rceil>
         \<and> int (length heap_fps) = 2 - \<lceil>real_of_int 2 / 2\<rceil>
         \<and> snd ` set heap_fps \<inter> snd ` set heap_objs = {}
         \<and> snd ` set heap_fps \<inter> fst ` set [(5::nat, Fin 9)] = {}"
    by blast
  then show ?thesis using e z by blast
qed

section \<open>Double-precision arithmetic\<close>

text \<open>
  Rounding moves a real to one of the two multiples of its quantum that enclose it. The
  quantum of a number between \<open>2 ^ -1022\<close> and \<open>2 ^ 53\<close> is a negative power of
  two down to \<open>1\<close>, so an integer below \<open>2 ^ 53\<close> is a double, and rounding never
  crosses an integer.
\<close>

lemma round_half_even_of_int [simp]: "round_half_even (of_int z) = z"
  by (simp add: round_half_even_def)

lemma round_half_even_ge_floor: "\<lfloor>m\<rfloor> \<le> round_half_even m"
  by (simp add: round_half_even_def Let_def)

lemma round_half_even_le_ceiling: "round_half_even m \<le> \<lceil>m\<rceil>"
proof (cases "m = of_int \<lfloor>m\<rfloor>")
  case True
  then have "round_half_even m = \<lfloor>m\<rfloor>" by (metis round_half_even_of_int)
  then show ?thesis by (simp add: floor_le_ceiling)
next
  case False
  then have "\<lceil>m\<rceil> = \<lfloor>m\<rfloor> + 1" by (simp add: ceiling_altdef)
  then show ?thesis by (simp add: round_half_even_def Let_def)
qed

lemma quantum_pos [simp]: "0 < quantum x"
  by (simp add: quantum_def)

lemma floor_log2_bounds:
  assumes "0 < x"
  shows "2 powr of_int \<lfloor>log 2 x\<rfloor> \<le> x" and "x < 2 powr of_int (\<lfloor>log 2 x\<rfloor> + 1)"
  using floor_log_eq_powr_iff[of x 2 "\<lfloor>log 2 x\<rfloor>"] assms by simp_all

lemma floor_log2_eqI:
  "0 < x \<Longrightarrow> 2 powr of_int e \<le> x \<Longrightarrow> x < 2 powr of_int (e + 1) \<Longrightarrow> \<lfloor>log 2 x\<rfloor> = e"
  using floor_log_eq_powr_iff[of x 2 e] by simp

lemma floor_log2_le:
  assumes "0 < x" and "x < 2 ^ k"
  shows "\<lfloor>log 2 x\<rfloor> < int k"
proof -
  have "x < 2 powr real k" using assms(2) by (simp add: powr_realpow)
  then have "log 2 x < real k" using assms(1) by (simp add: log_less_iff)
  then show ?thesis by linarith
qed

lemma floor_log2_ge:
  assumes "2 powr of_int e \<le> x"
  shows "e \<le> \<lfloor>log 2 x\<rfloor>"
proof -
  have "0 < x" using assms by (smt (verit) powr_gt_zero)
  then have "of_int e \<le> log 2 x" using assms by (simp add: le_log_iff)
  then show ?thesis by linarith
qed

lemma quantum_normal:
  assumes "0 < x" and "- 1022 \<le> \<lfloor>log 2 x\<rfloor>" and "\<lfloor>log 2 x\<rfloor> \<le> 52"
  shows "quantum x = 1 / 2 ^ nat (52 - \<lfloor>log 2 x\<rfloor>)"
proof -
  let ?e = "\<lfloor>log 2 x\<rfloor>"
  have "max ?e (- 1022) = ?e" using assms(2) by (rule max_absorb1)
  moreover have "\<bar>x\<bar> = x" using assms(1) by simp
  ultimately have "quantum x = 2 powr of_int (?e - 52)"
    unfolding quantum_def by (simp only:)
  also have "of_int (?e - 52) = - real_of_int (52 - ?e)" by simp
  also have "2 powr (- real_of_int (52 - ?e)) = inverse (2 powr real_of_int (52 - ?e))"
    by (rule powr_minus)
  also have "2 powr real_of_int (52 - ?e) = 2 ^ nat (52 - ?e)"
  proof -
    have k: "0 \<le> 52 - ?e" using assms(3) by simp
    have "(2::real) powr real_of_int (52 - ?e)
            = (if 0 \<le> 52 - ?e then 2 ^ nat (52 - ?e) else inverse (2 ^ nat (- (52 - ?e))))"
      by (rule powr_real_of_int) simp
    then show ?thesis using k by (simp only: if_True)
  qed
  finally show ?thesis by (simp add: inverse_eq_divide)
qed

lemma round_to_double_of_int:
  assumes "0 \<le> n" and "n < 2 ^ 53"
  shows "round_to_double (of_int n) = Fin (of_int n)"
proof (cases "n = 0")
  case True
  then show ?thesis by (simp add: round_to_double_def)
next
  case False
  let ?x = "real_of_int n"
  let ?e = "\<lfloor>log 2 ?x\<rfloor>"
  have pos: "0 < ?x" using assms(1) False by simp
  have "2 powr of_int 0 \<le> ?x" using assms(1) False by simp
  then have e0: "0 \<le> ?e" by (rule floor_log2_ge)
  have "?x < 2 ^ 53" using assms(2) by (metis of_int_less_iff of_int_numeral of_int_power)
  then have "?e < int 53" using pos by (intro floor_log2_le)
  then have e52: "?e \<le> 52" by simp
  define P :: int where "P = 2 ^ nat (52 - ?e)"
  have q: "quantum ?x = 1 / of_int P"
    using quantum_normal[OF pos _ e52] e0 by (simp add: P_def)
  have Ppos: "0 < P" by (simp add: P_def)
  have m: "?x / quantum ?x = of_int (n * P)" using q by simp
  have r: "round_half_even (?x / quantum ?x) = n * P"
    unfolding m by (rule round_half_even_of_int)
  have y: "quantum ?x * of_int (round_half_even (?x / quantum ?x)) = ?x"
    unfolding r using q Ppos by simp
  have "\<bar>?x\<bar> < 2 ^ 1024"
  proof -
    have "\<bar>?x\<bar> < 2 ^ 53" using \<open>?x < 2 ^ 53\<close> pos by simp
    also have "(2::real) ^ 53 < 2 ^ 1024" by simp
    finally show ?thesis .
  qed
  then show ?thesis
    using pos y by (simp add: round_to_double_def Let_def del: of_int_mult)
qed

lemma round_to_double_nonneg:
  assumes "0 \<le> x" and "x \<le> 2 ^ 53"
  shows "\<exists>y. round_to_double x = Fin y \<and> 0 \<le> y"
proof (cases "x = 0")
  case True
  then show ?thesis by (simp add: round_to_double_def)
next
  case False
  then have pos: "0 < x" using assms(1) by simp
  let ?q = "quantum x"
  let ?r = "round_half_even (x / ?q)"
  let ?y = "?q * of_int ?r"
  have m0: "0 \<le> x / ?q" by (rule divide_nonneg_pos[OF assms(1) quantum_pos])
  then have "0 \<le> \<lfloor>x / ?q\<rfloor>" by simp
  then have r0: "0 \<le> ?r" using round_half_even_ge_floor[of "x / ?q"] by linarith
  then have "0 \<le> real_of_int ?r" by simp
  then have y0: "0 \<le> ?y" by (intro mult_nonneg_nonneg less_imp_le[OF quantum_pos])
  have "of_int ?r \<le> real_of_int \<lceil>x / ?q\<rceil>"
    using round_half_even_le_ceiling[of "x / ?q"] by simp
  also have "\<dots> < x / ?q + 1" by linarith
  finally have "?y < ?q * (x / ?q + 1)" by (simp add: mult_strict_left_mono)
  also have "\<dots> = x + ?q"
  proof -
    have "?q \<noteq> 0" by (metis less_irrefl quantum_pos)
    then show ?thesis by (simp add: algebra_simps)
  qed
  finally have yxq: "?y < x + ?q" .
  have "x < 2 ^ 54" using assms(2) by (smt (verit) power_strict_increasing_iff numeral_less_iff semiring_norm)
  then have "\<lfloor>log 2 x\<rfloor> < int 54" using pos by (intro floor_log2_le)
  then have "real_of_int (max \<lfloor>log 2 \<bar>x\<bar>\<rfloor> (- 1022) - 52) \<le> 1" using pos by simp
  then have "?q \<le> 2 powr 1" unfolding quantum_def by (intro powr_mono) simp_all
  then have "?y < 2 ^ 53 + 2" using yxq assms(2) by simp
  also have "(2::real) ^ 53 + 2 < 2 ^ 1024" by simp
  finally have "\<bar>?y\<bar> < 2 ^ 1024" using y0 by simp
  then show ?thesis
    using False y0 by (simp add: round_to_double_def Let_def)
qed

lemma round_to_double_scaled:
  assumes "2 ^ k \<le> x" and "x < 2 * 2 ^ k" and "k \<le> 52"
  shows "round_to_double x
           = Fin (of_int (round_half_even (x * 2 ^ (52 - k))) / 2 ^ (52 - k))"
proof -
  have pos: "0 < x" using assms(1) by (smt (verit) zero_less_power)
  have lo: "2 powr of_int (int k) \<le> x" using assms(1) by (simp add: powr_realpow)
  have "x < 2 ^ Suc k" using assms(2) by simp
  then have "x < 2 powr real (Suc k)" by (simp only: powr_realpow[OF zero_less_numeral])
  then have hi: "x < 2 powr of_int (int k + 1)" by (simp add: add.commute)
  have e: "\<lfloor>log 2 x\<rfloor> = int k" using pos lo hi by (rule floor_log2_eqI)
  have n: "nat (52 - int k) = 52 - k" using assms(3) by simp
  have quant: "quantum x = 1 / 2 ^ (52 - k)"
    using quantum_normal[OF pos] assms(3) unfolding e n by simp
  let ?m = "x * 2 ^ (52 - k)"
  let ?r = "round_half_even ?m"
  have m: "x / quantum x = ?m" unfolding quant by simp
  have y: "quantum x * of_int (round_half_even (x / quantum x)) = of_int ?r / 2 ^ (52 - k)"
    unfolding m unfolding quant by simp
  have m0: "0 \<le> ?m" using pos by simp
  then have "0 \<le> \<lfloor>?m\<rfloor>" by simp
  then have r0: "0 \<le> ?r" using round_half_even_ge_floor[of ?m] by linarith
  have "?m \<le> (2 * 2 ^ k) * 2 ^ (52 - k)"
    using assms(2) by (intro mult_right_mono) simp_all
  also have "\<dots> = 2 * 2 ^ (k + (52 - k))" by (simp only: power_add mult.assoc)
  also have "k + (52 - k) = 52" using assms(3) by simp
  finally have mle: "?m \<le> of_int (2 ^ 53)" by simp
  have "?r \<le> \<lceil>?m\<rceil>" by (rule round_half_even_le_ceiling)
  also have "\<lceil>?m\<rceil> \<le> 2 ^ 53" using mle by (simp only: ceiling_le_iff)
  finally have rle: "real_of_int ?r \<le> 2 ^ 53" 
    by (metis of_int_le_iff of_int_numeral of_int_power)
  have "real_of_int ?r / 2 ^ (52 - k) \<le> real_of_int ?r / 1"
    using r0 by (intro divide_left_mono) simp_all
  then have "real_of_int ?r / 2 ^ (52 - k) \<le> 2 ^ 53" using rle by simp
  moreover have "(2::real) ^ 53 < 2 ^ 1024" by simp
  moreover have "0 \<le> real_of_int ?r / 2 ^ (52 - k)" using r0 by simp
  ultimately have "\<bar>real_of_int ?r / 2 ^ (52 - k)\<bar> < 2 ^ 1024" by simp
  then have nb: "\<not> 2 ^ 1024 \<le> \<bar>quantum x * of_int (round_half_even (x / quantum x))\<bar>"
    unfolding y by (simp only: not_le)
  have xne: "x \<noteq> 0" using pos by simp
  have "round_to_double x = Fin (quantum x * of_int (round_half_even (x / quantum x)))"
    unfolding round_to_double_def Let_def using nb xne by (simp only: if_False)
  then show ?thesis unfolding y .
qed

lemma round_to_double_between:
  assumes "0 \<le> x" and "x < 2 ^ 53" and "round_to_double x = Fin y"
  shows "of_int \<lfloor>x\<rfloor> \<le> y" and "y \<le> of_int \<lceil>x\<rceil>"
proof -
  have both: "of_int \<lfloor>x\<rfloor> \<le> y \<and> y \<le> of_int \<lceil>x\<rceil>"
  proof (cases "x = 0")
    case True
    then show ?thesis using assms(3) by (simp add: round_to_double_def)
  next
    case False
    then have pos: "0 < x" using assms(1) by simp
    let ?q = "quantum x"
    let ?r = "round_half_even (x / ?q)"
    have "\<lfloor>log 2 x\<rfloor> < int 53" using pos assms(2) by (rule floor_log2_le)
    then have E: "max \<lfloor>log 2 \<bar>x\<bar>\<rfloor> (- 1022) - 52 \<le> 0" using pos by simp
    define E where "E = max \<lfloor>log 2 \<bar>x\<bar>\<rfloor> (- 1022) - 52"
    define P :: int where "P = 2 ^ nat (- E)"
    have Ppos: "0 < P" by (simp add: P_def)
    have E0: "E \<le> 0" using E by (simp only: E_def)
    have "(2::real) powr real_of_int E
            = (if 0 \<le> E then 2 ^ nat E else inverse (2 ^ nat (- E)))"
      by (rule powr_real_of_int) simp
    also have "\<dots> = inverse (real_of_int P)"
    proof (cases "E = 0")
      case True
      then show ?thesis by (simp add: P_def)
    next
      case False
      then have "\<not> 0 \<le> E" using E0 by simp
      then show ?thesis by (simp add: P_def)
    qed
    finally have q: "?q = 1 / real_of_int P"
      unfolding quantum_def E_def by (simp add: inverse_eq_divide)
    have m: "x / ?q = x * of_int P" unfolding q by simp
    have yv: "y = ?q * of_int ?r"
      using assms(3) False
      by (simp add: round_to_double_def Let_def split: if_splits)
    then have y: "y = of_int ?r / of_int P" unfolding q by simp
    have "real_of_int (\<lfloor>x\<rfloor> * P) \<le> x * of_int P"
      using Ppos by (simp add: mult_right_mono)
    then have "\<lfloor>x\<rfloor> * P \<le> \<lfloor>x * of_int P\<rfloor>" by (simp only: le_floor_iff)
    also have "\<dots> \<le> ?r" unfolding m by (rule round_half_even_ge_floor)
    finally have "real_of_int (\<lfloor>x\<rfloor> * P) \<le> of_int ?r" by (simp only: of_int_le_iff)
    then have lo: "of_int \<lfloor>x\<rfloor> \<le> y" unfolding y using Ppos by (simp add: field_simps)
    have "x * of_int P \<le> real_of_int (\<lceil>x\<rceil> * P)"
      using Ppos by (simp add: mult_right_mono)
    then have "\<lceil>x * of_int P\<rceil> \<le> \<lceil>x\<rceil> * P" by (simp only: ceiling_le_iff)
    moreover have "?r \<le> \<lceil>x * of_int P\<rceil>" unfolding m by (rule round_half_even_le_ceiling)
    ultimately have "?r \<le> \<lceil>x\<rceil> * P" by (rule order_trans[rotated])
    then have "real_of_int ?r \<le> of_int (\<lceil>x\<rceil> * P)" by (simp only: of_int_le_iff)
    then have hi: "y \<le> of_int \<lceil>x\<rceil>" unfolding y using Ppos by (simp add: field_simps)
    show ?thesis using lo hi by (rule conjI)
  qed
  show "of_int \<lfloor>x\<rfloor> \<le> y" using both by (rule conjunct1)
  show "y \<le> of_int \<lceil>x\<rceil>" using both by (rule conjunct2)
qed

text \<open>
  The quotient of two non-negative ints up to \<open>2 ^ 52\<close> is not an integer unless the
  division is exact, and then it is at least \<open>1 / q\<close> away from the integers around it,
  which is at least one quantum: the rounded quotient has the ceiling of the exact one.
\<close>

lemma ceiling_round_to_double_quotient:
  assumes "0 \<le> p" and "p \<le> 2 ^ 52" and "0 < q" and "q \<le> 2 ^ 52"
  shows "\<exists>y. round_to_double (of_int p / of_int q) = Fin y
             \<and> \<lceil>y\<rceil> = \<lceil>real_of_int p / real_of_int q\<rceil>"
proof (cases "q dvd p")
  case True
  then obtain z where z: "p = q * z" by (auto simp: dvd_def)
  have z0: "0 \<le> z" using assms(1,3) z by (simp add: zero_le_mult_iff)
  have "z \<le> q * z" using z0 assms(3) by (simp add: mult_le_cancel_right1)
  then have "z \<le> 2 ^ 52" using z assms(2) by simp
  then have z53: "z < 2 ^ 53" by simp
  have "real_of_int p / real_of_int q = of_int z" using z assms(3) by simp
  then show ?thesis using round_to_double_of_int[OF z0 z53] by simp
next
  case False
  let ?x = "real_of_int p / real_of_int q"
  define n where "n = p div q"
  define r where "r = p mod q"
  have r: "0 < r" "r < q"
  proof -
    have "0 \<le> r" using assms(3) by (simp add: r_def)
    moreover have "r \<noteq> 0" using False by (simp add: r_def mod_eq_0_iff_dvd)
    ultimately show "0 < r" by simp
    show "r < q" using assms(3) by (simp add: r_def)
  qed
  have pq: "p = n * q + r" by (simp add: n_def r_def)
  have n0: "0 \<le> n" using assms(1,3) by (simp add: n_def pos_imp_zdiv_nonneg_iff)
  have nle: "n \<le> 2 ^ 52"
  proof -
    have "n * 1 \<le> n * q" using n0 assms(3) by (intro mult_left_mono) simp_all
    then have "n \<le> p" using pq r(1) by simp
    then show ?thesis using assms(2) by simp
  qed
  have qr: "0 < real_of_int q" using assms(3) by simp
  have x: "?x = of_int n + of_int r / of_int q"
    using qr by (simp add: pq field_simps)
  have ppos: "0 < p" using assms(1) False by (cases "p = 0") auto
  have pos: "0 < ?x" using ppos qr by simp
  let ?e = "\<lfloor>log 2 ?x\<rfloor>"
  have xlt: "?x < 2 ^ 53"
  proof -
    have "?x \<le> of_int p" using qr assms(1,3) by (simp add: field_simps mult_le_cancel_left1)
    also have "real_of_int p \<le> 2 ^ 52"
      using assms(2) by (metis of_int_le_iff of_int_numeral of_int_power)
    also have "(2::real) ^ 52 < 2 ^ 53" by simp
    finally show ?thesis .
  qed
  then have "?e < int 53" using pos by (intro floor_log2_le)
  then have e52: "?e \<le> 52" by simp
  have xge: "2 powr of_int (- 52) \<le> ?x"
  proof -
    have "real_of_int q \<le> 2 ^ 52"
      using assms(4) by (metis of_int_le_iff of_int_numeral of_int_power)
    then have "1 / 2 ^ 52 \<le> 1 / real_of_int q" using qr by (simp add: frac_le)
    also have "\<dots> \<le> ?x" using ppos qr by (simp add: divide_right_mono)
    finally show ?thesis by (simp add: powr_neg_numeral)
  qed
  then have "- 52 \<le> ?e" by (rule floor_log2_ge)
  then have e1022: "- 1022 \<le> ?e" by simp
  define P :: int where "P = 2 ^ nat (52 - ?e)"
  have Ppos: "0 < P" by (simp add: P_def)
  have quant: "quantum ?x = 1 / of_int P"
    using quantum_normal[OF pos e1022 e52] by (simp add: P_def)
  have Pr: "real_of_int P = 2 powr of_int (52 - ?e)"
  proof -
    have k: "0 \<le> 52 - ?e" using e52 by simp
    have "(2::real) powr real_of_int (52 - ?e)
            = (if 0 \<le> 52 - ?e then 2 ^ nat (52 - ?e) else inverse (2 ^ nat (- (52 - ?e))))"
      by (rule powr_real_of_int) simp
    then show ?thesis using k by (simp add: P_def)
  qed
  have qP: "real_of_int q \<le> real_of_int P"
  proof -
    have "2 powr of_int ?e \<le> ?x" using pos by (rule floor_log2_bounds(1))
    then have "(2::real) powr of_int ?e * real_of_int q \<le> real_of_int p"
      using qr by (simp add: field_simps)
    also have "real_of_int p \<le> 2 ^ 52"
      using assms(2) by (metis of_int_le_iff of_int_numeral of_int_power)
    finally have "(2::real) powr of_int ?e * real_of_int q \<le> 2 powr 52" by simp
    then have "real_of_int q \<le> 2 powr 52 / 2 powr of_int ?e"
      by (simp add: field_simps)
    also have "\<dots> = 2 powr (52 - real_of_int ?e)" by (simp add: powr_diff)
    also have "\<dots> = real_of_int P" using Pr by simp
    finally show ?thesis .
  qed
  let ?m = "?x / quantum ?x"
  have m: "?m = of_int (n * P) + of_int r * of_int P / of_int q"
    using quant Ppos by (simp add: x algebra_simps)
  have frac_lo: "1 \<le> real_of_int r * of_int P / of_int q"
  proof -
    have "1 \<le> real_of_int r" using r(1) by simp
    then have "real_of_int q \<le> real_of_int r * of_int P"
      using qP Ppos by (smt (verit) mult_le_cancel_right1 mult_mono of_int_0_less_iff qr)
    then show ?thesis using qr by (simp add: field_simps)
  qed
  have frac_hi: "real_of_int r * of_int P / of_int q \<le> of_int P - 1"
  proof -
    have "real_of_int r \<le> of_int q - 1" using r(2) by linarith
    then have "real_of_int r * of_int P \<le> (of_int q - 1) * of_int P"
      using Ppos by (simp add: mult_right_mono)
    also have "\<dots> = of_int q * of_int P - of_int P" by (simp add: algebra_simps)
    also have "\<dots> \<le> of_int q * of_int P - of_int q" using qP by simp
    also have "\<dots> = of_int q * (of_int P - 1)" by (simp add: algebra_simps)
    finally show ?thesis using qr by (simp add: field_simps)
  qed
  have lo: "of_int (n * P + 1) \<le> ?m" using m frac_lo by simp
  have hi: "?m \<le> of_int (n * P + P - 1)" using m frac_hi by simp
  let ?ro = "round_half_even ?m"
  have rlo: "n * P + 1 \<le> ?ro"
    using lo round_half_even_ge_floor[of ?m] by (meson le_floor_iff order_trans)
  have rhi: "?ro \<le> n * P + P - 1"
    using hi round_half_even_le_ceiling[of ?m] by (meson ceiling_le_iff order_trans)
  let ?y = "quantum ?x * of_int ?ro"
  have y: "?y = of_int ?ro / of_int P" using quant by simp
  have ylo: "of_int n < ?y"
  proof -
    have "real_of_int (n * P) < of_int ?ro" using rlo by linarith
    then show ?thesis unfolding y using Ppos by (simp add: field_simps)
  qed
  have yhi: "?y \<le> of_int (n + 1)"
  proof -
    have "?ro \<le> (n + 1) * P" using rhi by (simp add: algebra_simps)
    then have "real_of_int ?ro \<le> of_int ((n + 1) * P)" by (simp only: of_int_le_iff)
    then show ?thesis unfolding y using Ppos by (simp add: field_simps)
  qed
  have cy: "\<lceil>?y\<rceil> = n + 1" using ylo yhi by (intro ceiling_unique) simp_all
  have cx: "\<lceil>?x\<rceil> = n + 1"
  proof (intro ceiling_unique)
    show "of_int (n + 1) - 1 < ?x" using x r(1) qr by simp
    have "real_of_int r / of_int q \<le> 1" using r(2) qr by simp
    then show "?x \<le> of_int (n + 1)" using x by simp
  qed
  have "\<bar>?y\<bar> < 2 ^ 1024"
  proof -
    have "0 \<le> ?y" using ylo n0 by (smt (verit) of_int_nonneg)
    moreover have "?y \<le> 2 ^ 52 + 1"
    proof -
      have "real_of_int (n + 1) \<le> 2 ^ 52 + 1"
        using nle by (metis add.commute add_le_cancel_left of_int_1 of_int_add of_int_le_iff of_int_numeral of_int_power)
      then show ?thesis using yhi by linarith
    qed
    moreover have "(2::real) ^ 52 + 1 < 2 ^ 1024" by simp
    ultimately show ?thesis by simp
  qed
  then have nb: "\<not> 2 ^ 1024 \<le> \<bar>?y\<bar>" by (simp only: not_le)
  have xne: "?x \<noteq> 0" using pos by (simp only: less_imp_neq[THEN not_sym] not_False_eq_True)
  have "round_to_double ?x = Fin ?y"
    unfolding round_to_double_def Let_def using nb xne by (simp only: if_False)
  then show ?thesis using cy cx by simp
qed

text \<open>Roundings at the values used below.\<close>

lemma round_to_double_one: "round_to_double 1 = Fin 1"
  using round_to_double_of_int[of 1] by simp

lemma round_to_double_two: "round_to_double 2 = Fin 2"
  using round_to_double_of_int[of 2] by simp

lemma round_to_double_ten: "round_to_double 10 = Fin 10"
  using round_to_double_of_int[of 10] by simp

lemma round_to_double_seven_tenths:
  "round_to_double (10 * (3152519739159347 / 4503599627370496)) = Fin 7"
proof -
  have "round_to_double (10 * (3152519739159347 / 4503599627370496))
          = Fin (of_int (round_half_even
                           (10 * (3152519739159347 / 4503599627370496) * 2 ^ (52 - 2)))
                   / 2 ^ (52 - 2))"
    by (rule round_to_double_scaled) simp_all
  also have "round_half_even (10 * (3152519739159347 / 4503599627370496) * 2 ^ (52 - 2))
               = 7881299347898368"
    by (simp add: round_half_even_def)
  finally show ?thesis by simp
qed

lemma round_to_double_near_two_pow_27:
  "round_to_double (18014398777917441 / 134217730) = Fin 134217728"
proof -
  have "round_to_double (18014398777917441 / 134217730)
          = Fin (of_int (round_half_even (18014398777917441 / 134217730 * 2 ^ (52 - 27)))
                   / 2 ^ (52 - 27))"
    by (rule round_to_double_scaled) simp_all
  also have "round_half_even (18014398777917441 / 134217730 * 2 ^ (52 - 27))
               = 4503599627370496"
    by (simp add: round_half_even_def)
  finally show ?thesis by simp
qed

section \<open>The epsilon-greedy override\<close>

lemma length_fold_update [simp]:
  "length (fold (\<lambda>i V. V[i := (c::'a)]) idxs U) = length U"
  by (induction idxs arbitrary: U) auto

lemma nth_fold_update:
  "i < length U \<Longrightarrow>
   fold (\<lambda>i V. V[i := (c::'a)]) idxs U ! i = (if i \<in> set idxs then c else U ! i)"
proof (induction idxs arbitrary: U)
  case Nil
  then show ?case by simp
next
  case (Cons j idxs)
  then show ?case by (auto simp: nth_list_update)
qed

lemma perm_arange:
  assumes "mset perm = mset [0..<n]"
  shows "distinct perm" and "set perm = {..<n}" and "length perm = n"
proof -
  show "distinct perm" using assms by (metis distinct_upt mset_eq_imp_distinct_iff)
  show "set perm = {..<n}" using assms by (metis atLeast_upt mset_eq_setD)
  show "length perm = n" using assms by (metis length_upt mset_eq_length minus_nat.diff_0)
qed

lemma perm_arange_iff: "mset p = mset [0..<n] \<longleftrightarrow> distinct p \<and> set p = {..<n}"
proof
  assume "mset p = mset [0..<n]"
  then show "distinct p \<and> set p = {..<n}" using perm_arange(1,2) by blast
next
  assume a: "distinct p \<and> set p = {..<n}"
  then have "set p = set [0..<n]" by (simp add: atLeast_upt)
  then show "mset p = mset [0..<n]"
    using a set_eq_iff_mset_eq_distinct[of p "[0..<n]"] by (simp del: mset_upt)
qed

lemma card_perms_with_prefix:
  assumes "distinct idxs" and "set idxs \<subseteq> {..<n}"
  shows "card {p. mset p = mset [0..<n] \<and> take (length idxs) p = idxs}
           = fact (n - length idxs)"
proof -
  let ?k = "length idxs"
  let ?A = "{..<n} - set idxs"
  let ?R = "{r. length r = card ?A \<and> distinct r \<and> set r \<subseteq> ?A}"
  have fin: "finite ?A" by simp
  have cardA: "card ?A = n - ?k"
    using assms by (simp add: card_Diff_subset distinct_card)
  have whole: "set r = ?A" if "r \<in> ?R" for r
  proof -
    have "card (set r) = card ?A" using that by (simp add: distinct_card)
    moreover have "set r \<subseteq> ?A" using that by simp
    ultimately show ?thesis using fin by (metis card_subset_eq)
  qed
  have eq: "{p. mset p = mset [0..<n] \<and> take ?k p = idxs} = (\<lambda>r. idxs @ r) ` ?R"
  proof (intro set_eqI iffI)
    fix p assume "p \<in> {p. mset p = mset [0..<n] \<and> take ?k p = idxs}"
    then have d: "distinct p" and s: "set p = {..<n}" and t: "take ?k p = idxs"
      by (simp_all add: perm_arange_iff del: mset_upt)
    let ?r = "drop ?k p"
    have p: "p = idxs @ ?r" using t by (metis append_take_drop_id)
    have dr: "distinct ?r" using d by simp
    have disj: "set idxs \<inter> set ?r = {}" using d p by (metis distinct_append)
    have un: "set idxs \<union> set ?r = {..<n}" using s p by (metis set_append)
    have sr: "set ?r = ?A" using disj un by blast
    have "length ?r = card ?A" using dr sr by (metis distinct_card)
    then have "?r \<in> ?R" using dr sr by simp
    then show "p \<in> (\<lambda>r. idxs @ r) ` ?R" using p by (metis (no_types, lifting) image_eqI)
  next
    fix p assume "p \<in> (\<lambda>r. idxs @ r) ` ?R"
    then obtain r where r: "r \<in> ?R" and p: "p = idxs @ r" by blast
    have sr: "set r = ?A" using r by (rule whole)
    have dr: "distinct r" using r by simp
    have "distinct p" using assms(1) dr sr p by auto
    moreover have "set p = {..<n}" using sr assms(2) p by auto
    moreover have "take ?k p = idxs" using p by simp
    ultimately show "p \<in> {p. mset p = mset [0..<n] \<and> take ?k p = idxs}"
      by (simp add: perm_arange_iff del: mset_upt)
  qed
  have inj: "inj_on (\<lambda>r. idxs @ r) ?R" by (rule inj_onI) simp
  have "card ?R = \<Prod>{card ?A - card ?A + 1..card ?A}"
    using fin by (rule card_lists_distinct_length_eq) simp
  also have "\<dots> = fact (card ?A)" by (simp add: fact_prod)
  finally have "card ?R = fact (n - ?k)" unfolding cardA .
  then show ?thesis unfolding eq using inj by (simp only: card_image)
qed

lemma choice_prefix:
  assumes "distinct idxs" and "set idxs \<subseteq> {..<n}" and "int (length idxs) = k"
  shows "np_random_choice p n k = Inr idxs \<longleftrightarrow> take (length idxs) p = idxs"
proof -
  have "length idxs = card (set idxs)" using assms(1) by (simp add: distinct_card)
  also have "\<dots> \<le> card {..<n}" using assms(2) by (intro card_mono) simp_all
  finally have "length idxs \<le> n" by simp
  then have "\<not> (k < 0 \<or> int n < k)" using assms(3) by auto
  moreover have "nat k = length idxs" using assms(3) by auto
  ultimately show ?thesis by (simp add: np_random_choice_def)
qed

text \<open>
  The number of forced indices for a batch size below \<open>2 ^ 53\<close> and
  \<open>0 \<le> epsilon \<le> 1\<close>: the product rounded to a double and truncated, which is
  \<open>floor(epsilon * batch_size)\<close> or, when the rounding reaches the next integer, one
  more.
\<close>

lemma forced_size_value:
  assumes "0 \<le> bsize" and "bsize < 2 ^ 53" and "0 \<le> eps" and "eps \<le> 1"
  shows "\<exists>y. round_to_double (of_int bsize * eps) = Fin y \<and> 0 \<le> y
             \<and> forced_size bsize eps = Inr \<lfloor>y\<rfloor>
             \<and> \<lfloor>of_int bsize * eps\<rfloor> \<le> \<lfloor>y\<rfloor> \<and> \<lfloor>y\<rfloor> \<le> \<lceil>of_int bsize * eps\<rceil>"
proof -
  let ?x = "real_of_int bsize * eps"
  have fl: "float_of_int bsize = Inr (of_int bsize)"
    using round_to_double_of_int[OF assms(1,2)] by (simp add: float_of_int_def)
  have b: "0 \<le> real_of_int bsize" using assms(1) by simp
  have lo: "0 \<le> ?x" using b assms(3) by (rule mult_nonneg_nonneg)
  have "?x \<le> real_of_int bsize * 1"
    using assms(4) b by (rule mult_left_mono)
  also have "real_of_int bsize < 2 ^ 53"
    using assms(2) by (metis of_int_less_iff of_int_numeral of_int_power)
  finally have lt: "?x < 2 ^ 53" by simp
  then have hi: "?x \<le> 2 ^ 53" by (rule less_imp_le)
  from round_to_double_nonneg[OF lo hi] obtain y where
    y: "round_to_double ?x = Fin y" "0 \<le> y" by blast
  have fs: "forced_size bsize eps = Inr \<lfloor>y\<rfloor>"
    using fl y by (simp add: forced_size_def mul_int_float_def int_of_float_def py_int_def)
  have "of_int \<lfloor>?x\<rfloor> \<le> y" using lo lt y(1) by (rule round_to_double_between(1))
  then have below: "\<lfloor>?x\<rfloor> \<le> \<lfloor>y\<rfloor>" by (simp only: le_floor_iff)
  have "y \<le> of_int \<lceil>?x\<rceil>" using lo lt y(1) by (rule round_to_double_between(2))
  then have above: "\<lfloor>y\<rfloor> \<le> \<lceil>?x\<rceil>" by linarith
  show ?thesis using y fs below above by blast
qed

text \<open>
  Claim C2, as amended. Let the batch size be non-negative and below \<open>2 ^ 53\<close>, let
  \<open>0 \<le> epsilon \<le> 1\<close> (the constructor refuses any other), and let
  \<open>k = int(batch_size * epsilon)\<close>, the product being the double nearest to the exact
  one: \<open>k\<close> is \<open>floor(epsilon * batch_size)\<close> or one more. For \<open>epsilon = 0\<close> it
  is \<open>0\<close> and no utility is overridden; for \<open>epsilon = 1\<close> it is the batch size. When
  \<open>k\<close> exceeds the number of scored items, the override raises ValueError. Otherwise it
  forces exactly \<open>k\<close> distinct indices of the scored set to positive infinity and leaves
  every other utility as it was. The indices are the first \<open>k\<close> entries of the
  permutation of the scored set that numpy draws, and the draw is uniform without
  replacement: every sequence of \<open>k\<close> distinct indices is the choice under the same
  number of permutations, \<open>(n - k)!\<close> of the \<open>n!\<close>.
\<close>

theorem epsilon_override_forced:
  assumes "mset perm = mset [0..<length U]" and "0 \<le> bsize" and "bsize < 2 ^ 53"
      and "0 \<le> eps" and "eps \<le> 1"
  shows "\<exists>y k. round_to_double (of_int bsize * eps) = Fin y \<and> k = \<lfloor>y\<rfloor> \<and> 0 \<le> k
           \<and> \<lfloor>of_int bsize * eps\<rfloor> \<le> k \<and> k \<le> \<lceil>of_int bsize * eps\<rceil>
           \<and> forced_size bsize eps = Inr k
           \<and> (eps = 0 \<longrightarrow> k = 0 \<and> epsilon_override U bsize eps perm = Inr U)
           \<and> (eps = 1 \<longrightarrow> k = bsize)
           \<and> (int (length U) < k \<longrightarrow> epsilon_override U bsize eps perm = Inl ValueError)
           \<and> (k \<le> int (length U) \<longrightarrow>
                (\<exists>forced U'. epsilon_override U bsize eps perm = Inr U'
                   \<and> length U' = length U
                   \<and> forced \<subseteq> {..<length U}
                   \<and> int (card forced) = k
                   \<and> (\<forall>i<length U. U' ! i = (if i \<in> forced then PInf else U ! i))))
           \<and> (\<forall>idxs. distinct idxs \<and> set idxs \<subseteq> {..<length U} \<and> int (length idxs) = k \<longrightarrow>
                card {p. mset p = mset [0..<length U]
                         \<and> np_random_choice p (length U) k = Inr idxs}
                  = fact (length U - length idxs))"
proof -
  from forced_size_value[OF assms(2-5)] obtain y where
    y: "round_to_double (of_int bsize * eps) = Fin y" and y0: "0 \<le> y" and
    fs: "forced_size bsize eps = Inr \<lfloor>y\<rfloor>" and
    below: "\<lfloor>of_int bsize * eps\<rfloor> \<le> \<lfloor>y\<rfloor>" and above: "\<lfloor>y\<rfloor> \<le> \<lceil>of_int bsize * eps\<rceil>"
    by blast
  let ?k = "\<lfloor>y\<rfloor>"
  let ?idxs = "take (nat ?k) perm"
  let ?U' = "fold (\<lambda>i V. V[i := PInf]) ?idxs U"
  have k0: "0 \<le> ?k" using y0 by simp
  have zero_k: "?k = 0" if "eps = 0"
  proof -
    have "round_to_double (of_int bsize * eps) = Fin 0"
      using that by (simp add: round_to_double_def)
    then show ?thesis using y by simp
  qed
  have one: "eps = 1 \<longrightarrow> ?k = bsize"
  proof
    assume "eps = 1"
    then have "round_to_double (of_int bsize * eps) = Fin (of_int bsize)"
      using round_to_double_of_int[OF assms(2,3)] by simp
    then show "?k = bsize" using y by simp
  qed
  have over: "int (length U) < ?k \<longrightarrow> epsilon_override U bsize eps perm = Inl ValueError"
    using fs by (simp add: epsilon_override_def np_random_choice_def)
  have run: "epsilon_override U bsize eps perm = Inr ?U'" if "?k \<le> int (length U)"
    using fs k0 that by (simp add: epsilon_override_def np_random_choice_def)
  have zero: "eps = 0 \<longrightarrow> ?k = 0 \<and> epsilon_override U bsize eps perm = Inr U"
  proof
    assume e: "eps = 0"
    then have z: "?k = 0" by (rule zero_k)
    then have "epsilon_override U bsize eps perm = Inr ?U'" by (intro run) simp
    then show "?k = 0 \<and> epsilon_override U bsize eps perm = Inr U" using z by simp
  qed
  have within: "?k \<le> int (length U) \<longrightarrow>
                (\<exists>forced U'. epsilon_override U bsize eps perm = Inr U'
                   \<and> length U' = length U
                   \<and> forced \<subseteq> {..<length U}
                   \<and> int (card forced) = ?k
                   \<and> (\<forall>i<length U. U' ! i = (if i \<in> forced then PInf else U ! i)))"
  proof
    assume le: "?k \<le> int (length U)"
    have d: "distinct ?idxs" using perm_arange(1)[OF assms(1)] by simp
    have len: "length ?idxs = nat ?k"
      using perm_arange(3)[OF assms(1)] le k0 by simp
    have sub: "set ?idxs \<subseteq> {..<length U}"
      using perm_arange(2)[OF assms(1)] set_take_subset[of "nat ?k" perm] by blast
    have card: "int (card (set ?idxs)) = ?k"
      using d len k0 by (simp add: distinct_card)
    have nth: "\<forall>i<length U. ?U' ! i = (if i \<in> set ?idxs then PInf else U ! i)"
      by (simp add: nth_fold_update)
    show "\<exists>forced U'. epsilon_override U bsize eps perm = Inr U'
                   \<and> length U' = length U
                   \<and> forced \<subseteq> {..<length U}
                   \<and> int (card forced) = ?k
                   \<and> (\<forall>i<length U. U' ! i = (if i \<in> forced then PInf else U ! i))"
      using run[OF le] sub card nth
      by (intro exI[of _ "set ?idxs"] exI[of _ ?U']) simp
  qed
  have uniform: "\<forall>idxs. distinct idxs \<and> set idxs \<subseteq> {..<length U} \<and> int (length idxs) = ?k \<longrightarrow>
                card {p. mset p = mset [0..<length U]
                         \<and> np_random_choice p (length U) ?k = Inr idxs}
                  = fact (length U - length idxs)"
  proof (intro allI impI)
    fix idxs :: "nat list"
    assume a: "distinct idxs \<and> set idxs \<subseteq> {..<length U} \<and> int (length idxs) = ?k"
    then have "np_random_choice p (length U) ?k = Inr idxs \<longleftrightarrow> take (length idxs) p = idxs"
      for p by (intro choice_prefix) simp_all
    then have "{p. mset p = mset [0..<length U] \<and> np_random_choice p (length U) ?k = Inr idxs}
                 = {p. mset p = mset [0..<length U] \<and> take (length idxs) p = idxs}"
      by (simp only:)
    then show "card {p. mset p = mset [0..<length U]
                         \<and> np_random_choice p (length U) ?k = Inr idxs}
                  = fact (length U - length idxs)"
      using card_perms_with_prefix[of idxs "length U"] a by (simp only:)
  qed
  show ?thesis
    using y k0 below above fs zero one over within uniform
    by (intro exI[of _ y] exI[of _ ?k] conjI) (rule refl | assumption)+
qed

theorem epsilon_override_forced_witness:
  "mset [2, 0, 3, 1] = mset [0..<length [Fin 1, Fin 2, Fin 3, Fin 4]]
   \<and> (0::int) \<le> 2 \<and> (2::int) < 2 ^ 53 \<and> (0::real) \<le> 1 / 2 \<and> (1 / 2 :: real) \<le> 1
   \<and> forced_size 2 (1 / 2) = Inr 1
   \<and> epsilon_override [Fin 1, Fin 2, Fin 3, Fin 4] 2 (1 / 2) [2, 0, 3, 1]
        = Inr [Fin 1, Fin 2, PInf, Fin 4]
   \<and> card {p. mset p = mset [0..<length [Fin 1, Fin 2, Fin 3, Fin 4]]
               \<and> np_random_choice p (length [Fin 1, Fin 2, Fin 3, Fin 4]) 1 = Inr [2]}
        = fact (length [Fin 1, Fin 2, Fin 3, Fin 4] - length [2::nat])"
proof -
  let ?U = "[Fin 1, Fin 2, Fin 3, Fin 4]"
  have p: "mset [2, 0, 3, 1] = mset [0..<length ?U]"
    by (simp add: upt_rec numeral_eq_Suc)
  have z: "(0::int) \<le> 2" "(2::int) < 2 ^ 53" "(0::real) \<le> 1 / 2" "(1 / 2 :: real) \<le> 1"
    by simp_all
  from epsilon_override_forced[OF p z] obtain y k where
    y: "round_to_double (of_int 2 * (1 / 2)) = Fin y" and k: "k = \<lfloor>y\<rfloor>" and
    fs: "forced_size 2 (1 / 2) = Inr k" and
    u: "\<forall>idxs. distinct idxs \<and> set idxs \<subseteq> {..<length ?U} \<and> int (length idxs) = k \<longrightarrow>
                card {p. mset p = mset [0..<length ?U]
                         \<and> np_random_choice p (length ?U) k = Inr idxs}
                  = fact (length ?U - length idxs)"
    by blast
  have "y = 1" using y by (simp add: round_to_double_one)
  then have k1: "k = 1" using k by simp
  have f: "forced_size 2 (1 / 2) = Inr 1" using fs k1 by simp
  have e: "epsilon_override ?U 2 (1 / 2) [2, 0, 3, 1] = Inr [Fin 1, Fin 2, PInf, Fin 4]"
    by (simp add: epsilon_override_def np_random_choice_def f)
  have "distinct [2::nat] \<and> set [2::nat] \<subseteq> {..<length ?U} \<and> int (length [2::nat]) = k"
    using k1 by simp
  then have c: "card {p. mset p = mset [0..<length ?U]
                         \<and> np_random_choice p (length ?U) k = Inr [2]}
                  = fact (length ?U - length [2::nat])"
    using u by blast
  show ?thesis using p z f e c[unfolded k1] by (intro conjI)
qed

text \<open>
  The claim as stated fails in two ways. A pool smaller than the number of indices to
  force makes \<open>np.random.choice\<close> raise ValueError (one scored item, batch size
  \<open>2\<close>, \<open>epsilon = 1.0\<close>), so that \<open>acquire_batch\<close> forces nothing and returns no
  batch. And the count is taken from the double product: for a batch size of \<open>10\<close> and
  \<open>epsilon = 0.7\<close>, the double \<open>3152519739159347 / 2 ^ 52\<close>, the product rounds to
  \<open>7.0\<close> and seven indices are forced, where \<open>floor(epsilon * batch_size)\<close> is
  \<open>6\<close>.
\<close>

theorem epsilon_override_counterexample:
  "epsilon_override [Fin 1] 2 1 [0] = Inl ValueError
   \<and> acquire_batch
        \<lparr> size_a = 1, init_size = 1, batch_sizes = [2], dim = 1, cluster_type = None,
          cluster_superset = None, epsilon = 1, temp_i = None, temp_f = None \<rparr>
        \<lparr> metrics_calc = (\<lambda>cmax n. [Fin 1]), cluster_objs = (\<lambda>xs n. Inr []),
          cluster_feats = (\<lambda>xs n. Inr []) \<rparr>
        [7::nat] [] 1 (Some 0) [0]
      = Some (Inl ValueError)
   \<and> forced_size 10 (3152519739159347 / 4503599627370496) = Inr 7
   \<and> \<lfloor>(3152519739159347 / 4503599627370496 :: real) * of_int 10\<rfloor> = 6
   \<and> epsilon_override
        [Fin 0, Fin 1, Fin 2, Fin 3, Fin 4, Fin 5, Fin 6, Fin 7, Fin 8, Fin 9] 10
        (3152519739159347 / 4503599627370496) [0, 1, 2, 3, 4, 5, 6, 7, 8, 9]
      = Inr [PInf, PInf, PInf, PInf, PInf, PInf, PInf, Fin 7, Fin 8, Fin 9]"
proof -
  have f2: "forced_size 2 1 = Inr 2"
    by (simp add: forced_size_def mul_int_float_def float_of_int_def int_of_float_def
          py_int_def round_to_double_two)
  have fl: "float_of_int 10 = Inr 10"
    by (simp add: float_of_int_def round_to_double_ten)
  have m: "mul_int_float 10 (3152519739159347 / 4503599627370496) = Inr (Fin 7)"
    unfolding mul_int_float_def fl by (simp only: sum.case round_to_double_seven_tenths)
  have f10: "forced_size 10 (3152519739159347 / 4503599627370496) = Inr 7"
    unfolding forced_size_def m by (simp add: int_of_float_def py_int_def)
  have a: "epsilon_override [Fin 1] 2 1 [0] = Inl ValueError"
    by (simp add: epsilon_override_def np_random_choice_def f2)
  have b: "acquire_batch
        \<lparr> size_a = 1, init_size = 1, batch_sizes = [2], dim = 1, cluster_type = None,
          cluster_superset = None, epsilon = 1, temp_i = None, temp_f = None \<rparr>
        \<lparr> metrics_calc = (\<lambda>cmax n. [Fin 1]), cluster_objs = (\<lambda>xs n. Inr []),
          cluster_feats = (\<lambda>xs n. Inr []) \<rparr>
        [7::nat] [] 1 (Some 0) [0]
      = Some (Inl ValueError)"
    by (simp add: a acquire_batch_def current_max_def batch_size_def py_index_def)
  have c: "\<lfloor>(3152519739159347 / 4503599627370496 :: real) * of_int 10\<rfloor> = 6"
    by simp
  have d: "epsilon_override
        [Fin 0, Fin 1, Fin 2, Fin 3, Fin 4, Fin 5, Fin 6, Fin 7, Fin 8, Fin 9] 10
        (3152519739159347 / 4503599627370496) [0, 1, 2, 3, 4, 5, 6, 7, 8, 9]
      = Inr [PInf, PInf, PInf, PInf, PInf, PInf, PInf, Fin 7, Fin 8, Fin 9]"
    by (simp add: epsilon_override_def np_random_choice_def f10)
  show ?thesis using a b f10 c d by (intro conjI)
qed

section \<open>Initial acquisition with clusters\<close>

lemma cluster_capacity_exact:
  assumes "0 \<le> isz * cs" and "isz * cs \<le> 2 ^ 52" and "0 < n" and "int n \<le> 2 ^ 52"
  shows "cluster_capacity isz cs n = Inr \<lceil>real_of_int (isz * cs) / real n\<rceil>"
proof -
  have q: "0 < int n" using assms(3) by simp
  from ceiling_round_to_double_quotient[OF assms(1,2) q assms(4)]
  obtain y where "round_to_double (real_of_int (isz * cs) / real_of_int (int n)) = Fin y"
    and "\<lceil>y\<rceil> = \<lceil>real_of_int (isz * cs) / real_of_int (int n)\<rceil>"
    by blast
  then show ?thesis
    using assms(3) by (simp add: cluster_capacity_def int_truediv_def)
qed

lemma init_heaps_result:
  assumes "\<forall>(cid, cs) \<in> set csz. cluster_capacity isz cs n = Inr (cap cs)"
  shows "init_heaps isz n csz = Inr (map (\<lambda>(cid, cs). (cid, ([], cap cs))) csz)"
  using assms by (induction csz) auto

lemma cluster_loop_inv:
  assumes "distinct (map fst d)" and "\<forall>z\<in>set zs. snd (snd z) \<in> fst ` set d"
  shows "\<exists>d'. cluster_loop zs d = Inr d' \<and> map fst d' = map fst d
           \<and> (\<forall>cid heap cap. map_of d cid = Some (heap, cap) \<longrightarrow>
                 (\<exists>heap'. map_of d' cid = Some (heap', cap)
                    \<and> length heap'
                        = (if cap \<le> int (length heap) then length heap
                           else min (nat cap)
                                  (length heap + length (filter (\<lambda>z. snd (snd z) = cid) zs)))))"
  using assms
proof (induction zs arbitrary: d)
  case Nil
  then show ?case by simp
next
  case (Cons z zs)
  obtain x u c where z: "z = (x, u, c)" by (cases z) auto
  have cin: "c \<in> fst ` set d" using Cons.prems(2) z by simp
  then obtain h hc where look: "map_of d c = Some (h, hc)"
    by (metis domD dom_map_of_conv_image_fst surj_pair)
  let ?h1 = "push_bounded h hc (u, x)"
  let ?d1 = "AList.update c (?h1, hc) d"
  have keys1: "map fst ?d1 = map fst d"
    using cin by (simp add: update_keys)
  have dist1: "distinct (map fst ?d1)" using Cons.prems(1) by (simp add: distinct_update)
  have in1: "\<forall>z\<in>set zs. snd (snd z) \<in> fst ` set ?d1"
    using Cons.prems(2) by (simp add: dom_update)
  from Cons.IH[OF dist1 in1] obtain d' where
    run: "cluster_loop zs ?d1 = Inr d'" and keys: "map fst d' = map fst ?d1" and
    inv: "\<And>cid heap cap. map_of ?d1 cid = Some (heap, cap) \<Longrightarrow>
            \<exists>heap'. map_of d' cid = Some (heap', cap)
               \<and> length heap'
                   = (if cap \<le> int (length heap) then length heap
                      else min (nat cap)
                             (length heap + length (filter (\<lambda>z. snd (snd z) = cid) zs)))"
    by blast
  have step: "cluster_loop (z # zs) d = Inr d'" using z look run by simp
  have "\<exists>heap'. map_of d' cid = Some (heap', cap)
          \<and> length heap'
              = (if cap \<le> int (length heap) then length heap
                 else min (nat cap)
                        (length heap + length (filter (\<lambda>z. snd (snd z) = cid) (z # zs))))"
    if m: "map_of d cid = Some (heap, cap)" for cid heap cap
  proof (cases "cid = c")
    case True
    then have hc: "heap = h" "cap = hc" using m look by auto
    have "map_of ?d1 cid = Some (?h1, hc)" using True by (simp add: update_conv')
    from inv[OF this] obtain heap' where
      h': "map_of d' cid = Some (heap', hc)" and
      l': "length heap'
             = (if hc \<le> int (length ?h1) then length ?h1
                else min (nat hc)
                       (length ?h1 + length (filter (\<lambda>z. snd (snd z) = cid) zs)))"
      by blast
    have "length heap'
            = (if hc \<le> int (length h) then length h
               else min (nat hc)
                      (length h + length (filter (\<lambda>z. snd (snd z) = cid) (z # zs))))"
      using l' True z by (auto simp: length_push_bounded)
    then show ?thesis using h' hc by simp
  next
    case False
    then have "map_of ?d1 cid = Some (heap, cap)" using m by (simp add: update_conv')
    from inv[OF this] show ?thesis using False z by auto
  qed
  then show ?case using step keys keys1 by auto
qed

lemma alist_values_by_key:
  "distinct (map fst d) \<Longrightarrow> map (\<lambda>e. f (snd e)) d = map (\<lambda>k. f (the (map_of d k))) (map fst d)"
proof (induction d)
  case Nil
  then show ?case by simp
next
  case (Cons e d)
  obtain k v where e: "e = (k, v)" by (cases e) auto
  have "map (\<lambda>k'. f (the (map_of (e # d) k'))) (map fst d)
          = map (\<lambda>k'. f (the (map_of d k'))) (map fst d)"
    using Cons.prems e by (intro map_cong) auto
  then show ?case using Cons e by simp
qed

lemma map_of_initial_heaps:
  "distinct (map fst csz) \<Longrightarrow> (cid, n) \<in> set csz \<Longrightarrow>
   map_of (map (\<lambda>(cid, cluster_size). (cid, ([], g cluster_size))) csz) cid = Some ([], g n)"
  by (induction csz) (auto simp: rev_image_eqI)

lemma clustered_count:
  assumes "distinct (map fst csz)" and "set cids \<subseteq> fst ` set csz"
      and "length xs = length U" and "length cids = length U"
      and "\<forall>(cid, n) \<in> set csz.
             cluster_capacity (init_size a) n (length U) = Inr (cap n) \<and> 0 \<le> cap n"
  shows "\<exists>sel. acquire_initial a U xs (Some cids) (Some csz) = Inr sel
            \<and> int (length sel)
                = (\<Sum>(cid, n)\<leftarrow>csz. min (int (length (filter (\<lambda>c. c = cid) cids))) (cap n))"
proof -
  let ?d0 = "map (\<lambda>(cid, cluster_size). (cid, ([]::'a entry list, cap cluster_size))) csz"
  let ?zs = "zip xs (zip U cids)"
  have "\<forall>(cid, n) \<in> set csz. cluster_capacity (init_size a) n (length U) = Inr (cap n)"
    using assms(5) by auto
  then have heaps: "init_heaps (init_size a) (length U) csz = Inr ?d0"
    by (rule init_heaps_result)
  have keys0: "map fst ?d0 = map fst csz" by (induction csz) auto
  have dist0: "distinct (map fst ?d0)" unfolding keys0 by (rule assms(1))
  have dom0: "fst ` set ?d0 = fst ` set csz"
    using keys0 by (metis list.set_map)
  have zc: "snd (snd z) \<in> set cids" if "z \<in> set ?zs" for z
    using that by (metis in_set_zipE prod.collapse)
  have in0: "\<forall>z\<in>set ?zs. snd (snd z) \<in> fst ` set ?d0"
  proof
    fix z assume "z \<in> set ?zs"
    then have "snd (snd z) \<in> fst ` set csz" using zc assms(2) by blast
    then show "snd (snd z) \<in> fst ` set ?d0" unfolding dom0 .
  qed
  from cluster_loop_inv[OF dist0 in0] obtain d' where
    run: "cluster_loop ?zs ?d0 = Inr d'" and keys: "map fst d' = map fst ?d0" and
    inv: "\<And>cid heap c. map_of ?d0 cid = Some (heap, c) \<Longrightarrow>
            \<exists>heap'. map_of d' cid = Some (heap', c)
               \<and> length heap'
                   = (if c \<le> int (length heap) then length heap
                      else min (nat c)
                             (length heap + length (filter (\<lambda>z. snd (snd z) = cid) ?zs)))"
    by blast
  let ?sel = "map snd (concat (map (\<lambda>(cid, heap, heap_size). heap) d'))"
  have res: "acquire_initial a U xs (Some cids) (Some csz) = Inr ?sel"
    using run heaps by (simp add: acquire_initial_def)
  have cnt: "length (filter (\<lambda>z. snd (snd z) = cid) ?zs) = length (filter (\<lambda>c. c = cid) cids)"
    for cid
  proof -
    have "map (snd \<circ> snd) ?zs = cids" using assms(3,4)
      by (simp add: map_snd_zip flip: map_map)
    then have "filter (\<lambda>c. c = cid) cids = filter (\<lambda>c. c = cid) (map (snd \<circ> snd) ?zs)"
      by simp
    also have "\<dots> = map (snd \<circ> snd) (filter (\<lambda>z. snd (snd z) = cid) ?zs)"
      by (simp add: filter_map comp_def)
    finally show ?thesis by (metis length_map)
  qed
  have capnn: "0 \<le> cap n" if "(cid, n) \<in> set csz" for cid n
    using assms(5) that by auto
  have each: "int (length (fst (the (map_of d' cid))))
                = min (int (length (filter (\<lambda>c. c = cid) cids))) (cap n)"
    if "(cid, n) \<in> set csz" for cid n
  proof -
    have "map_of ?d0 cid = Some ([], cap n)"
      by (rule map_of_initial_heaps[OF assms(1) that])
    from inv[OF this] obtain heap' where
      "map_of d' cid = Some (heap', cap n)"
      "length heap' = (if cap n \<le> int (length ([]::'a entry list)) then length ([]::'a entry list)
                       else min (nat (cap n))
                              (length ([]::'a entry list) + length (filter (\<lambda>z. snd (snd z) = cid) ?zs)))"
      by blast
    then show ?thesis using capnn[OF that] cnt[of cid] by auto
  qed
  have keysd: "map fst d' = map fst csz" using keys keys0 by (rule trans)
  have distd: "distinct (map fst d')" unfolding keysd by (rule assms(1))
  have "length ?sel = sum_list (map (\<lambda>e. length (fst (snd e))) d')"
    by (simp add: length_concat comp_def case_prod_unfold)
  also have "\<dots> = sum_list (map (\<lambda>k. length (fst (the (map_of d' k)))) (map fst d'))"
    by (rule arg_cong[of _ _ sum_list], rule alist_values_by_key[OF distd])
  also have "\<dots> = sum_list (map (\<lambda>k. length (fst (the (map_of d' k)))) (map fst csz))"
    by (simp only: keysd)
  finally have L: "length ?sel
                     = sum_list (map (\<lambda>e. length (fst (the (map_of d' (fst e))))) csz)"
    by (simp add: comp_def)
  have "int (length ?sel)
          = (\<Sum>e\<leftarrow>csz. int (length (fst (the (map_of d' (fst e))))))"
    unfolding L by (simp add: comp_def flip: sum_list_of_nat)
  also have "\<dots> = (\<Sum>(cid, n)\<leftarrow>csz. min (int (length (filter (\<lambda>c. c = cid) cids))) (cap n))"
    using each by (intro arg_cong[of _ _ sum_list] map_cong) auto
  finally show ?thesis using res by blast
qed

lemma cluster_capacity_rounded:
  "cluster_capacity 134217729 134217729 134217730 = Inr 134217728"
  by (simp add: cluster_capacity_def int_truediv_def round_to_double_near_two_pow_27)

lemma cluster_capacity_small:
  "cluster_capacity 134217729 1 134217730 = Inr 1"
proof -
  have "cluster_capacity 134217729 1 134217730
          = Inr \<lceil>real_of_int (134217729 * 1) / real 134217730\<rceil>"
    by (rule cluster_capacity_exact) simp_all
  then show ?thesis by simp
qed

text \<open>
  Claim C10, as amended. In the clustered path of \<open>acquire_initial\<close>, with cluster ids
  that \<open>cluster_sizes\<close> lists, one utility and one cluster id per pool item, non-negative
  sizes, and every product \<open>init_size * cluster_size\<close> and the pool size at most
  \<open>2 ^ 52\<close>, the number of items returned is the sum over the cluster ids of
  \<open>min(number of pool items with that id, ceil(init_size * cluster_size / pool_size))\<close>,
  the quotient being the exact one. The capacities are rounded up one by one, so the
  total can exceed \<open>init_size\<close>: with \<open>init_size = 1\<close> and two clusters of one item
  each, two items are returned.
\<close>

theorem acquire_initial_clustered_count:
  assumes "distinct (map fst csz)" and "set cids \<subseteq> fst ` set csz"
      and "length xs = length U" and "length cids = length U" and "U \<noteq> []"
      and "0 \<le> init_size a"
      and "\<forall>(cid, n) \<in> set csz. 0 \<le> n \<and> init_size a * n \<le> 2 ^ 52"
      and "int (length U) \<le> 2 ^ 52"
  shows "(\<exists>sel. acquire_initial a U xs (Some cids) (Some csz) = Inr sel
            \<and> int (length sel)
                = (\<Sum>(cid, n)\<leftarrow>csz.
                     min (int (length (filter (\<lambda>c. c = cid) cids)))
                         \<lceil>real_of_int (init_size a * n) / real (length U)\<rceil>))
         \<and> (\<exists>sel. acquire_initial
                      \<lparr> size_a = 2, init_size = 1, batch_sizes = [1], dim = 1,
                        cluster_type = None, cluster_superset = None, epsilon = 0,
                        temp_i = None, temp_f = None \<rparr>
                      [Fin 3, Fin 7] [1::nat, 2] (Some [0, 1]) (Some [(0, 1), (1, 1)]) = Inr sel
                \<and> 1 < length sel)"
proof -
  let ?cap = "\<lambda>n. \<lceil>real_of_int (init_size a * n) / real (length U)\<rceil>"
  have pos: "0 < length U" using assms(5) by simp
  have caps: "\<forall>(cid, n) \<in> set csz.
                cluster_capacity (init_size a) n (length U) = Inr (?cap n) \<and> 0 \<le> ?cap n"
  proof (intro ballI, clarify)
    fix cid n assume "(cid, n) \<in> set csz"
    then have n: "0 \<le> n" "init_size a * n \<le> 2 ^ 52" using assms(7) by auto
    have p: "0 \<le> init_size a * n" using assms(6) n(1) by simp
    have "cluster_capacity (init_size a) n (length U) = Inr (?cap n)"
      using p n(2) pos assms(8) by (rule cluster_capacity_exact)
    moreover have "0 \<le> real_of_int (init_size a * n) / real (length U)"
      using p by (intro divide_nonneg_nonneg) (simp_all only: of_int_0_le_iff of_nat_0_le_iff)
    then have "0 \<le> ?cap n" by linarith
    ultimately show "cluster_capacity (init_size a) n (length U) = Inr (?cap n) \<and> 0 \<le> ?cap n"
      by simp
  qed
  have general: "\<exists>sel. acquire_initial a U xs (Some cids) (Some csz) = Inr sel
            \<and> int (length sel)
                = (\<Sum>(cid, n)\<leftarrow>csz.
                     min (int (length (filter (\<lambda>c. c = cid) cids))) (?cap n))"
    using assms(1-4) caps by (rule clustered_count)
  let ?A = "\<lparr> size_a = 2, init_size = 1, batch_sizes = [1], dim = 1,
              cluster_type = None, cluster_superset = None, epsilon = 0,
              temp_i = None, temp_f = None \<rparr>"
  have half: "cluster_capacity 1 1 (Suc (Suc 0)) = Inr 1"
  proof -
    have "cluster_capacity 1 1 (Suc (Suc 0))
            = Inr \<lceil>real_of_int (1 * 1) / real (Suc (Suc 0))\<rceil>"
      by (rule cluster_capacity_exact) simp_all
    moreover have "\<lceil>(1::real) / 2\<rceil> = 1" by (simp add: ceiling_eq_iff)
    ultimately show ?thesis by simp
  qed
  have "\<exists>sel. acquire_initial ?A [Fin 3, Fin 7] [1::nat, 2] (Some [0, 1])
                 (Some [(0, 1), (1, 1)]) = Inr sel
           \<and> int (length sel)
               = (\<Sum>(cid, n)\<leftarrow>[(0::int, 1::int), (1, 1)].
                    min (int (length (filter (\<lambda>c. c = cid) [0, 1]))) ((\<lambda>n. 1) n))"
    by (rule clustered_count) (simp_all add: half)
  then have exceed: "\<exists>sel. acquire_initial ?A [Fin 3, Fin 7] [1::nat, 2] (Some [0, 1])
                 (Some [(0, 1), (1, 1)]) = Inr sel \<and> 1 < length sel"
    by auto
  show ?thesis using general exceed by blast
qed

theorem acquire_initial_clustered_count_witness:
  "distinct (map fst [(0::int, 1::int), (1, 1)])
   \<and> set [0, 1] \<subseteq> fst ` set [(0::int, 1::int), (1, 1)]
   \<and> length [1::nat, 2] = length [Fin 3, Fin 7]
   \<and> length [0::int, 1] = length [Fin 3, Fin 7]
   \<and> [Fin 3, Fin 7] \<noteq> []
   \<and> 0 \<le> init_size \<lparr> size_a = 2, init_size = 1, batch_sizes = [1], dim = 1,
                        cluster_type = None, cluster_superset = None, epsilon = 0,
                        temp_i = None, temp_f = None \<rparr>
   \<and> list_all (\<lambda>(cid, n). 0 \<le> n \<and> 1 * n \<le> 2 ^ 52) [(0::int, 1::int), (1, 1)]
   \<and> int (length [Fin 3, Fin 7]) \<le> 2 ^ 52
   \<and> (\<exists>sel. acquire_initial
                \<lparr> size_a = 2, init_size = 1, batch_sizes = [1], dim = 1,
                  cluster_type = None, cluster_superset = None, epsilon = 0,
                  temp_i = None, temp_f = None \<rparr>
                [Fin 3, Fin 7] [1::nat, 2] (Some [0, 1]) (Some [(0, 1), (1, 1)]) = Inr sel
          \<and> int (length sel)
              = (\<Sum>(cid, n)\<leftarrow>[(0::int, 1::int), (1, 1)].
                   min (int (length (filter (\<lambda>c. c = cid) [0, 1])))
                       \<lceil>real_of_int (1 * n) / real (length [Fin 3, Fin 7])\<rceil>))"
  using acquire_initial_clustered_count[of "[(0, 1), (1, 1)]" "[0, 1]" "[1::nat, 2]"
          "[Fin 3, Fin 7]"
          "\<lparr> size_a = 2, init_size = 1, batch_sizes = [1], dim = 1,
                        cluster_type = None, cluster_superset = None, epsilon = 0,
                        temp_i = None, temp_f = None \<rparr>"]
  by simp

text \<open>
  The claim as stated fails beyond that range, because the quotient is a double. With
  \<open>init_size = 134217729\<close>, a pool of \<open>134217730\<close> items and a cluster of
  \<open>134217729\<close> of them, the exact quotient is just above \<open>134217728\<close> and its
  ceiling is \<open>134217729\<close>, but the double nearest to it is \<open>134217728.0\<close>: the
  cluster yields \<open>134217728\<close> items and the call \<open>134217729\<close> in all, one fewer than
  the sum of the claim.
\<close>

theorem acquire_initial_clustered_counterexample:
  "map_sum id length
     (acquire_initial
        \<lparr> size_a = 134217730, init_size = 134217729, batch_sizes = [1], dim = 1,
          cluster_type = None, cluster_superset = None, epsilon = 0,
          temp_i = None, temp_f = None \<rparr>
        (replicate 134217730 (Fin 0)) [0..<134217730]
        (Some (replicate 134217729 0 @ [1])) (Some [(0, 134217729), (1, 1)]))
     = Inr 134217729
   \<and> (\<Sum>(cid, n)\<leftarrow>[(0::int, 134217729::int), (1, 1)].
         min (int (length (filter (\<lambda>c. c = cid) (replicate 134217729 0 @ [1]))))
             \<lceil>real_of_int (134217729 * n) / real (length (replicate 134217730 (Fin 0)))\<rceil>)
       = 134217730"
proof -
  let ?A = "\<lparr> size_a = 134217730, init_size = 134217729, batch_sizes = [1], dim = 1,
              cluster_type = None, cluster_superset = None, epsilon = 0,
              temp_i = None, temp_f = None \<rparr>"
  let ?U = "replicate 134217730 (Fin 0)"
  let ?cids = "replicate 134217729 (0::int) @ [1]"
  let ?csz = "[(0::int, 134217729::int), (1, 1)]"
  let ?cap = "\<lambda>n::int. if n = 1 then 1 else (134217728::int)"
  have l1: "length [0..<134217730] = length ?U" by (simp only: length_upt length_replicate diff_zero)
  have l2: "length ?cids = length ?U" by simp
  have caps: "\<forall>(cid, n) \<in> set ?csz.
                cluster_capacity (init_size ?A) n (length ?U) = Inr (?cap n) \<and> 0 \<le> ?cap n"
    by (simp add: cluster_capacity_rounded cluster_capacity_small)
  have "\<exists>sel. acquire_initial ?A ?U [0..<134217730] (Some ?cids) (Some ?csz) = Inr sel
          \<and> int (length sel)
              = (\<Sum>(cid, n)\<leftarrow>?csz. min (int (length (filter (\<lambda>c. c = cid) ?cids))) (?cap n))"
    using _ _ l1 l2 caps by (rule clustered_count) simp_all
  then obtain sel where
    run: "acquire_initial ?A ?U [0..<134217730] (Some ?cids) (Some ?csz) = Inr sel" and
    len: "int (length sel)
            = (\<Sum>(cid, n)\<leftarrow>?csz. min (int (length (filter (\<lambda>c. c = cid) ?cids))) (?cap n))"
    by blast
  have "int (length sel) = 134217729" unfolding len by simp
  then have "length sel = 134217729" by linarith
  then have first: "map_sum id length
                      (acquire_initial ?A ?U [0..<134217730] (Some ?cids) (Some ?csz))
                    = Inr 134217729"
    unfolding run by simp
  have second: "(\<Sum>(cid, n)\<leftarrow>?csz.
         min (int (length (filter (\<lambda>c. c = cid) ?cids)))
             \<lceil>real_of_int (134217729 * n) / real (length ?U)\<rceil>) = 134217730"
    by simp
  show ?thesis using first second by (rule conjI)
qed

section \<open>Seeded initial acquisition\<close>






end
